theory Spec2Isabelle
  imports Main "HOL-Library.Monad_Syntax"
begin

section \<open>The sorted slice of goupdate/sortedslice (ss.go)\<close>

text \<open>
  The container of \<^verbatim>\<open>ss.go\<close> is a Go slice of key-value structs kept in key order.
  Every operation is embedded as a function on the slice's contents. A run-time panic
  of Go (an index or a slice bound out of range) is the result \<open>None\<close>, so that "the
  operation does not panic" is a statement to prove, not an assumption. The embedded
  \<^verbatim>\<open>sync.RWMutex\<close> has no sequential meaning and is left out: the functions below
  describe one operation running alone, which is what the lock gives each writer.

  The key type is \<^verbatim>\<open>constraints.Ordered\<close>, modelled as a linear order (integers and
  strings; a floating-point NaN is outside the model). Go's zero value of a type is the
  constant \<open>default\<close> of the class of the same name.
\<close>

subsection \<open>Data model\<close>

record ('k, 'v) kv =
  Key :: 'k
  Value :: 'v

record ('k, 'v) SortedSlice =
  data :: "('k, 'v) kv list"

instantiation int :: default
begin
definition default_int :: int where "default_int = 0"
instance ..
end

instantiation list :: (type) default
begin
definition default_list :: "'a list" where "default_list = []"
instance ..
end

subsection \<open>Go's checked slice accesses\<close>

text \<open>\<^verbatim>\<open>xs[i]\<close> as a read: a panic unless \<open>i < len(xs)\<close>.\<close>

definition index_at :: "'a list \<Rightarrow> nat \<Rightarrow> 'a option" where
  "index_at xs i = (if i < length xs then Some (xs ! i) else None)"

text \<open>\<^verbatim>\<open>xs[i] = v\<close>: a panic unless \<open>i < len(xs)\<close>.\<close>

definition store_at :: "'a list \<Rightarrow> nat \<Rightarrow> 'a \<Rightarrow> 'a list option" where
  "store_at xs i v = (if i < length xs then Some (xs[i := v]) else None)"

text \<open>\<^verbatim>\<open>xs[lo:]\<close>: a panic unless \<open>lo \<le> len(xs)\<close>.\<close>

definition slice_from :: "'a list \<Rightarrow> nat \<Rightarrow> 'a list option" where
  "slice_from xs lo = (if lo \<le> length xs then Some (drop lo xs) else None)"

text \<open>
  \<^verbatim>\<open>xs[:hi]\<close>: Go allows \<open>hi\<close> up to the capacity; the model has no capacity and
  panics already beyond the length, so it panics at least as often as Go does.
\<close>

definition slice_to :: "'a list \<Rightarrow> nat \<Rightarrow> 'a list option" where
  "slice_to xs hi = (if hi \<le> length xs then Some (take hi xs) else None)"

text \<open>
  The builtin \<^verbatim>\<open>copy(dst, src)\<close> copies \<open>min(len(dst), len(src))\<close> elements and
  reads the source as it was before the call, also when the two overlap. The result
  is the new contents of \<open>dst\<close>.
\<close>

definition copy_go :: "'a list \<Rightarrow> 'a list \<Rightarrow> 'a list" where
  "copy_go dst src =
     take (min (length dst) (length src)) src @ drop (min (length dst) (length src)) dst"

subsection \<open>sort.Search\<close>

text \<open>
  \<^verbatim>\<open>sort.Search(n, f)\<close> is Go's standard library, not part of the repository. The
  model follows the library's loop:
  \<^verbatim>\<open>
  i, j := 0, n
  for i < j {
      h := int(uint(i+j) >> 1)
      if !f(h) { i = h + 1 } else { j = h }
  }
  return i
  \<close>
  Both indices stay at most \<open>n\<close>, the length of a slice, so \<open>i + j\<close> does not wrap and
  the shift is the division by two. The predicate is the caller's closure and may panic
  (it indexes the slice); a panic inside it ends the search.
\<close>

function Search_loop :: "(nat \<Rightarrow> bool option) \<Rightarrow> nat \<Rightarrow> nat \<Rightarrow> nat option" where
  "Search_loop f i j =
     (if i < j then
        (case f ((i + j) div 2) of
           None \<Rightarrow> None
         | Some b \<Rightarrow>
             if \<not> b then Search_loop f ((i + j) div 2 + 1) j
             else Search_loop f i ((i + j) div 2))
      else Some i)"
  by pat_completeness auto
termination
  by (relation "measure (\<lambda>(f, i, j). j - i)") auto

definition Search :: "nat \<Rightarrow> (nat \<Rightarrow> bool option) \<Rightarrow> nat option" where
  "Search n f = Search_loop f 0 n"

subsection \<open>Keyed operations\<close>

definition New :: "('k, 'v) SortedSlice" where
  "New = \<lparr>data = []\<rparr>"

definition Add ::
  "'k::{linorder, default} \<Rightarrow> 'v::default \<Rightarrow> ('k, 'v) SortedSlice \<Rightarrow> ('k, 'v) SortedSlice option"
where
  "Add key value ss = do {
     index \<leftarrow> Search (length (data ss))
       (\<lambda>i. do { e \<leftarrow> index_at (data ss) i; Some (Key e \<ge> key) });
     hit \<leftarrow> (if index < length (data ss)
             then do { e \<leftarrow> index_at (data ss) index; Some (Key e = key) }
             else Some False);
     if hit then do {
       e \<leftarrow> index_at (data ss) index;
       d \<leftarrow> store_at (data ss) index (e\<lparr>Value := value\<rparr>);
       Some (ss\<lparr>data := d\<rparr>)
     } else do {
       let d1 = data ss @ [\<lparr>Key = default, Value = default\<rparr>];
       dst \<leftarrow> slice_from d1 (index + 1);
       src \<leftarrow> slice_from d1 index;
       let d2 = take (index + 1) d1 @ copy_go dst src;
       d3 \<leftarrow> store_at d2 index \<lparr>Key = key, Value = value\<rparr>;
       Some (ss\<lparr>data := d3\<rparr>)
     }
   }"

definition Set ::
  "'k::{linorder, default} \<Rightarrow> 'v::default \<Rightarrow> ('k, 'v) SortedSlice \<Rightarrow> ('k, 'v) SortedSlice option"
where
  "Set key value ss = Add key value ss"

definition Store ::
  "'k::{linorder, default} \<Rightarrow> 'v::default \<Rightarrow> ('k, 'v) SortedSlice \<Rightarrow> ('k, 'v) SortedSlice option"
where
  "Store key value ss = Add key value ss"

definition Get :: "'k::linorder \<Rightarrow> ('k, 'v::default) SortedSlice \<Rightarrow> ('v \<times> bool) option" where
  "Get key ss = do {
     index \<leftarrow> Search (length (data ss))
       (\<lambda>i. do { e \<leftarrow> index_at (data ss) i; Some (Key e \<ge> key) });
     hit \<leftarrow> (if index < length (data ss)
             then do { e \<leftarrow> index_at (data ss) index; Some (Key e = key) }
             else Some False);
     if hit then do {
       e \<leftarrow> index_at (data ss) index;
       Some (Value e, True)
     } else Some (default, False)
   }"

definition Find :: "'k::linorder \<Rightarrow> ('k, 'v::default) SortedSlice \<Rightarrow> ('v \<times> bool) option" where
  "Find key ss = Get key ss"

definition Exist :: "'k::linorder \<Rightarrow> ('k, 'v) SortedSlice \<Rightarrow> bool option" where
  "Exist key ss = do {
     index \<leftarrow> Search (length (data ss))
       (\<lambda>i. do { e \<leftarrow> index_at (data ss) i; Some (Key e \<ge> key) });
     if index < length (data ss)
     then do { e \<leftarrow> index_at (data ss) index; Some (Key e = key) }
     else Some False
   }"

definition Delete ::
  "'k::linorder \<Rightarrow> ('k, 'v::default) SortedSlice \<Rightarrow> (('v \<times> bool) \<times> ('k, 'v) SortedSlice) option"
where
  "Delete key ss = do {
     index \<leftarrow> Search (length (data ss))
       (\<lambda>i. do { e \<leftarrow> index_at (data ss) i; Some (Key e \<ge> key) });
     hit \<leftarrow> (if index < length (data ss)
             then do { e \<leftarrow> index_at (data ss) index; Some (Key e = key) }
             else Some False);
     if hit then do {
       e \<leftarrow> index_at (data ss) index;
       front \<leftarrow> slice_to (data ss) index;
       back \<leftarrow> slice_from (data ss) (index + 1);
       Some ((Value e, True), ss\<lparr>data := front @ back\<rparr>)
     } else Some ((default, False), ss)
   }"

definition Remove ::
  "'k::linorder \<Rightarrow> ('k, 'v::default) SortedSlice \<Rightarrow> (('v \<times> bool) \<times> ('k, 'v) SortedSlice) option"
where
  "Remove key ss = Delete key ss"

definition Len :: "('k, 'v) SortedSlice \<Rightarrow> nat" where
  "Len ss = length (data ss)"

definition Clear :: "('k, 'v) SortedSlice \<Rightarrow> ('k, 'v) SortedSlice" where
  "Clear ss = ss\<lparr>data := []\<rparr>"

subsection \<open>Persistence\<close>

text \<open>
  \<^verbatim>\<open>Load\<close> and \<^verbatim>\<open>Save\<close> call the operating system (\<^verbatim>\<open>os.Open\<close>,
  \<^verbatim>\<open>os.Create\<close>) and the library \<^verbatim>\<open>encoding/gob\<close>; neither is part of the
  repository. The file system is a state: what each path holds, and the paths at which
  opening or creating fails. The codec is a parameter of \<open>Save\<close> and \<open>Load\<close>:
  the encoder maps the value to the bytes it writes or fails, and the decoder is given
  the file's contents and the \<^emph>\<open>present\<close> value of the destination (Go passes the pointer
  \<^verbatim>\<open>&ss.data\<close>) and returns the error, if any, with the value it left there.
\<close>

datatype error = PathError string | CodecError

record 'b filesystem =
  files :: "string \<rightharpoonup> 'b list"
  denied :: "string set"

definition os_Open :: "'b filesystem \<Rightarrow> string \<Rightarrow> error + 'b list" where
  "os_Open fsys filename =
     (if filename \<in> denied fsys then Inl (PathError filename)
      else case files fsys filename of
             None \<Rightarrow> Inl (PathError filename)
           | Some contents \<Rightarrow> Inr contents)"


definition Load ::
  "('b list \<Rightarrow> ('k, 'v) kv list \<Rightarrow> error option \<times> ('k, 'v) kv list) \<Rightarrow>
   string \<Rightarrow> 'b filesystem \<Rightarrow> ('k, 'v) SortedSlice \<Rightarrow> error option \<times> ('k, 'v) SortedSlice"
where
  "Load Decode filename fsys ss =
     (case os_Open fsys filename of
        Inl err \<Rightarrow> (Some err, ss)
      | Inr file \<Rightarrow>
          (case Decode file (data ss) of (err, d) \<Rightarrow> (err, ss\<lparr>data := d\<rparr>)))"


text \<open>
  A codec to put in the parameters, after the way \<^verbatim>\<open>encoding/gob\<close> treats a slice
  (\<^verbatim>\<open>decodeSlice\<close> and \<^verbatim>\<open>decodeArrayHelper\<close> of the library). The encoder writes the
  element count and then the elements in order. The decoder reads the count \<open>n\<close>; when
  the destination holds fewer than \<open>n\<close> elements it replaces it by a fresh slice of \<open>n\<close>
  zero values, otherwise it sets the destination's length to \<open>n\<close> and keeps what is
  there; then it decodes the elements one by one, each into its slot of the destination,
  and fails when the input ends before \<open>n\<close> elements are read. The wire format, the
  capacity of the slice and the field-wise decoding of a struct are left out: a file is
  a list of tokens, and an element is written to its slot whole.
\<close>

datatype 'a gob_token = Count nat | Elem 'a


fun gob_decodeArray ::
  "'a gob_token list \<Rightarrow> nat \<Rightarrow> nat \<Rightarrow> 'a list \<Rightarrow> error option \<times> 'a list" where
  "gob_decodeArray toks 0 i dst = (None, dst)"
| "gob_decodeArray (Elem x # toks) (Suc n) i dst = gob_decodeArray toks n (i + 1) (dst[i := x])"
| "gob_decodeArray toks (Suc n) i dst = (Some CodecError, dst)"

definition gob_Decode ::
  "('k::default, 'v::default) kv gob_token list \<Rightarrow> ('k, 'v) kv list \<Rightarrow>
   error option \<times> ('k, 'v) kv list"
where
  "gob_Decode toks dst =
     (case toks of
        Count n # rest \<Rightarrow>
          gob_decodeArray rest n 0
            (if length dst < n then replicate n \<lparr>Key = default, Value = default\<rparr>
             else take n dst)
      | _ \<Rightarrow> (Some CodecError, dst))"

subsection \<open>Ranging\<close>

text \<open>
  The visit function is the caller's closure: it may read and change the caller's
  variables, so it is a function on a caller state \<open>'s\<close> that also returns the
  continue flag. It cannot change the slice (the read lock is held).
\<close>

fun Range_loop ::
  "('k \<Rightarrow> 'v \<Rightarrow> 's \<Rightarrow> bool \<times> 's) \<Rightarrow> ('k, 'v) kv list \<Rightarrow> 's \<Rightarrow> 's" where
  "Range_loop f [] s = s"
| "Range_loop f (e # es) s =
     (case f (Key e) (Value e) s of
        (continue, s') \<Rightarrow> if \<not> continue then s' else Range_loop f es s')"

definition Range ::
  "('k \<Rightarrow> 'v \<Rightarrow> 's \<Rightarrow> bool \<times> 's) \<Rightarrow> ('k, 'v) SortedSlice \<Rightarrow> 's \<Rightarrow> 's" where
  "Range f ss s = Range_loop f (data ss) s"

function RangeBackward_loop ::
  "('k \<Rightarrow> 'v \<Rightarrow> 's \<Rightarrow> bool \<times> 's) \<Rightarrow> ('k, 'v) kv list \<Rightarrow> nat \<Rightarrow> 's \<Rightarrow> 's option" where
  "RangeBackward_loop f d i s =
     (if i < length d then
        (case index_at d (length d - i - 1) of
           None \<Rightarrow> None
         | Some e \<Rightarrow>
             (case f (Key e) (Value e) s of
                (continue, s') \<Rightarrow>
                  if \<not> continue then Some s' else RangeBackward_loop f d (i + 1) s'))
      else Some s)"
  by pat_completeness auto
termination
  by (relation "measure (\<lambda>(f, d, i, s). length d - i)") auto

definition RangeBackward ::
  "('k \<Rightarrow> 'v \<Rightarrow> 's \<Rightarrow> bool \<times> 's) \<Rightarrow> ('k, 'v) SortedSlice \<Rightarrow> 's \<Rightarrow> 's option" where
  "RangeBackward f ss s = RangeBackward_loop f (data ss) 0 s"

text \<open>
  Two visit functions to observe a traversal with. \<open>recording f\<close> behaves as \<open>f\<close> and
  appends every pair it is called with to a log. \<open>stop_after N\<close> counts its calls and
  returns false at call number \<open>N\<close> (true before).
\<close>

definition recording ::
  "('k \<Rightarrow> 'v \<Rightarrow> 's \<Rightarrow> bool \<times> 's) \<Rightarrow>
   'k \<Rightarrow> 'v \<Rightarrow> 's \<times> ('k \<times> 'v) list \<Rightarrow> bool \<times> ('s \<times> ('k \<times> 'v) list)"
where
  "recording f k v st =
     (case f k v (fst st) of (continue, s') \<Rightarrow> (continue, (s', snd st @ [(k, v)])))"

definition stop_after :: "nat \<Rightarrow> 'k \<Rightarrow> 'v \<Rightarrow> nat \<Rightarrow> bool \<times> nat" where
  "stop_after N k v calls = (Suc calls < N, Suc calls)"

definition entries :: "('k, 'v) SortedSlice \<Rightarrow> ('k \<times> 'v) list" where
  "entries ss = map (\<lambda>e. (Key e, Value e)) (data ss)"

subsection \<open>Extremal access\<close>

definition First :: "('k, 'v::default) SortedSlice \<Rightarrow> 'v option" where
  "First ss =
     (if length (data ss) = 0 then Some default
      else do { e \<leftarrow> index_at (data ss) 0; Some (Value e) })"

definition Last :: "('k, 'v::default) SortedSlice \<Rightarrow> 'v option" where
  "Last ss =
     (if length (data ss) = 0 then Some default
      else do { e \<leftarrow> index_at (data ss) (length (data ss) - 1); Some (Value e) })"

definition Min_go :: "('k, 'v::default) SortedSlice \<Rightarrow> 'v option" where
  "Min_go ss = First ss"

definition Max_go :: "('k, 'v::default) SortedSlice \<Rightarrow> 'v option" where
  "Max_go ss = Last ss"

definition FirstKey :: "('k::default, 'v) SortedSlice \<Rightarrow> 'k option" where
  "FirstKey ss =
     (if length (data ss) = 0 then Some default
      else do { e \<leftarrow> index_at (data ss) 0; Some (Key e) })"

definition LastKey :: "('k::default, 'v) SortedSlice \<Rightarrow> 'k option" where
  "LastKey ss =
     (if length (data ss) = 0 then Some default
      else do { e \<leftarrow> index_at (data ss) (length (data ss) - 1); Some (Key e) })"

definition MinKey :: "('k::default, 'v) SortedSlice \<Rightarrow> 'k option" where
  "MinKey ss = FirstKey ss"

definition MaxKey :: "('k::default, 'v) SortedSlice \<Rightarrow> 'k option" where
  "MaxKey ss = LastKey ss"

subsection \<open>Sequences of mutations\<close>

datatype ('k, 'v) op =
  OpAdd 'k 'v | OpSet 'k 'v | OpStore 'k 'v | OpDelete 'k | OpRemove 'k | OpClear

fun apply_op ::
  "('k::{linorder, default}, 'v::default) op \<Rightarrow> ('k, 'v) SortedSlice \<Rightarrow>
   ('k, 'v) SortedSlice option" where
  "apply_op (OpAdd k v) ss = Add k v ss"
| "apply_op (OpSet k v) ss = Set k v ss"
| "apply_op (OpStore k v) ss = Store k v ss"
| "apply_op (OpDelete k) ss = map_option snd (Delete k ss)"
| "apply_op (OpRemove k) ss = map_option snd (Remove k ss)"
| "apply_op OpClear ss = Some (Clear ss)"

fun run ::
  "('k::{linorder, default}, 'v::default) op list \<Rightarrow> ('k, 'v) SortedSlice \<Rightarrow>
   ('k, 'v) SortedSlice option" where
  "run [] ss = Some ss"
| "run (x # xs) ss = (case apply_op x ss of None \<Rightarrow> None | Some ss' \<Rightarrow> run xs ss')"

text \<open>The invariant of the data model: keys strictly ascending.\<close>

definition ascending :: "('k::linorder, 'v) SortedSlice \<Rightarrow> bool" where
  "ascending ss = sorted_wrt (<) (map Key (data ss))"

definition keys :: "('k, 'v) SortedSlice \<Rightarrow> 'k set" where
  "keys ss = Key ` set (data ss)"

section \<open>Auxiliary facts\<close>

subsection \<open>The binary search\<close>

lemma Search_loop_bounds:
  "\<forall>h<j. f h \<noteq> None \<Longrightarrow> i \<le> j \<Longrightarrow> \<exists>r. Search_loop f i j = Some r \<and> i \<le> r \<and> r \<le> j"
proof (induction f i j rule: Search_loop.induct)
  case (1 f i j)
  show ?case
  proof (cases "i < j")
    case False
    with "1.prems" show ?thesis by simp
  next
    case True
    let ?h = "(i + j) div 2"
    from True have hlt: "?h < j" and ile: "i \<le> ?h" by auto
    with "1.prems" obtain b where fb: "f ?h = Some b" by auto
    show ?thesis
    proof (cases b)
      case True
      have "\<exists>r. Search_loop f i ?h = Some r \<and> i \<le> r \<and> r \<le> ?h"
        using "1.IH"(2)[OF \<open>i < j\<close> fb] True "1.prems" hlt ile by auto
      then show ?thesis using \<open>i < j\<close> fb True hlt by (auto simp del: Search_loop.simps simp: Search_loop.simps[of f i j])
    next
      case False
      have "\<exists>r. Search_loop f (?h + 1) j = Some r \<and> ?h + 1 \<le> r \<and> r \<le> j"
        using "1.IH"(1)[OF \<open>i < j\<close> fb] False "1.prems" hlt by auto
      then show ?thesis using \<open>i < j\<close> fb False ile by (auto simp del: Search_loop.simps simp: Search_loop.simps[of f i j])
    qed
  qed
qed

lemma Search_loop_partition:
  assumes "\<forall>h<j. f h = Some (g h)" and "i \<le> j" and "j \<le> n"
    and "\<forall>a b. a \<le> b \<longrightarrow> b < n \<longrightarrow> g a \<longrightarrow> g b"
    and "\<forall>h<i. \<not> g h" and "\<forall>h. j \<le> h \<longrightarrow> h < n \<longrightarrow> g h"
  shows "\<exists>r. Search_loop f i j = Some r \<and> r \<le> n \<and> (\<forall>h<r. \<not> g h) \<and> (\<forall>h. r \<le> h \<longrightarrow> h < n \<longrightarrow> g h)"
  using assms
proof (induction f i j rule: Search_loop.induct)
  case (1 f i j)
  show ?case
  proof (cases "i < j")
    case False
    with "1.prems" have "i = j" by simp
    with "1.prems" show ?thesis by auto
  next
    case True
    let ?h = "(i + j) div 2"
    from True have hlt: "?h < j" and ile: "i \<le> ?h" by auto
    with "1.prems" have fb: "f ?h = Some (g ?h)" by auto
    show ?thesis
    proof (cases "g ?h")
      case gh: True
      have mono: "\<forall>h. ?h \<le> h \<longrightarrow> h < n \<longrightarrow> g h"
        using "1.prems"(4) gh by blast
      have "\<exists>r. Search_loop f i ?h = Some r \<and> r \<le> n \<and> (\<forall>h<r. \<not> g h) \<and> (\<forall>h. r \<le> h \<longrightarrow> h < n \<longrightarrow> g h)"
        using "1.IH"(2)[OF True fb] gh "1.prems" hlt ile mono by auto
      then show ?thesis using True fb gh by (auto simp del: Search_loop.simps simp: Search_loop.simps[of f i j])
    next
      case gh: False
      have low: "\<forall>h<?h + 1. \<not> g h"
      proof (intro allI impI)
        fix h assume "h < ?h + 1"
        then have "h \<le> ?h" by simp
        moreover have "?h < n" using hlt "1.prems"(3) by simp
        ultimately show "\<not> g h" using "1.prems"(4) gh by blast
      qed
      have "\<exists>r. Search_loop f (?h + 1) j = Some r \<and> r \<le> n \<and> (\<forall>h<r. \<not> g h) \<and> (\<forall>h. r \<le> h \<longrightarrow> h < n \<longrightarrow> g h)"
        using "1.IH"(1)[OF True fb] gh "1.prems" hlt low by auto
      then show ?thesis using True fb gh by (auto simp del: Search_loop.simps simp: Search_loop.simps[of f i j])
    qed
  qed
qed

lemma locate_total:
  "\<exists>i. Search (length d) (\<lambda>i. index_at d i \<bind> (\<lambda>e. Some (key \<le> Key e))) = Some i \<and> i \<le> length d"
proof -
  have "\<forall>h<length d. (\<lambda>i. index_at d i \<bind> (\<lambda>e. Some (key \<le> Key e))) h \<noteq> None"
    by (simp add: index_at_def)
  from Search_loop_bounds[OF this, of 0] show ?thesis
    by (auto simp: Search_def)
qed

lemma locate_sorted:
  fixes key :: "'k::linorder"
  assumes "sorted_wrt (<) (map Key d)"
  shows "\<exists>i. Search (length d) (\<lambda>i. index_at d i \<bind> (\<lambda>e. Some (key \<le> Key e))) = Some i \<and>
             i \<le> length d \<and> (\<forall>h<i. Key (d ! h) < key) \<and>
             (\<forall>h. i \<le> h \<longrightarrow> h < length d \<longrightarrow> key \<le> Key (d ! h))"
proof -
  let ?f = "\<lambda>i. index_at d i \<bind> (\<lambda>e. Some (key \<le> Key e))"
  let ?g = "\<lambda>h. key \<le> Key (d ! h)"
  have f: "\<forall>h<length d. ?f h = Some (?g h)"
    by (simp add: index_at_def)
  have mono: "\<forall>a b. a \<le> b \<longrightarrow> b < length d \<longrightarrow> ?g a \<longrightarrow> ?g b"
  proof (intro allI impI)
    fix a b assume ab: "a \<le> b" "b < length d" "?g a"
    show "?g b"
    proof (cases "a = b")
      case True with ab show ?thesis by simp
    next
      case False
      with ab have "a < b" by simp
      with assms ab have "Key (d ! a) < Key (d ! b)"
        by (simp add: sorted_wrt_iff_nth_less)
      with ab show ?thesis by simp
    qed
  qed
  from Search_loop_partition[of "length d" ?f ?g 0 "length d", OF f _ _ mono]
  obtain r where "Search_loop ?f 0 (length d) = Some r" "r \<le> length d"
      "\<forall>h<r. \<not> ?g h" "\<forall>h. r \<le> h \<longrightarrow> h < length d \<longrightarrow> ?g h"
    by auto
  then show ?thesis by (auto simp: Search_def not_le)
qed

lemma shift_right:
  assumes "i \<le> length d"
  shows "(take (i + 1) (d @ [z]) @ copy_go (drop (i + 1) (d @ [z])) (drop i (d @ [z])))[i := e]
         = take i d @ e # drop i d"
proof -
  have c: "copy_go (drop (i + 1) (d @ [z])) (drop i (d @ [z])) = drop i d"
    using assms by (simp add: copy_go_def min_def)
  have "i < length (d @ [z])" using assms by simp
  then have t: "take (i + 1) (d @ [z]) = take i (d @ [z]) @ [(d @ [z]) ! i]"
    unfolding Suc_eq_plus1[symmetric] by (rule take_Suc_conv_app_nth)
  have t': "take i (d @ [z]) = take i d" using assms by simp
  show ?thesis unfolding c t t' using assms by (simp add: list_update_append)
qed

lemma Add_unfold:
  assumes "Search (length (data ss)) (\<lambda>i. index_at (data ss) i \<bind> (\<lambda>e. Some (key \<le> Key e))) = Some i"
    and "i \<le> length (data ss)"
  shows "Add key value ss = Some (ss\<lparr>data :=
           if i < length (data ss) \<and> Key (data ss ! i) = key
           then (data ss)[i := (data ss ! i)\<lparr>Value := value\<rparr>]
           else take i (data ss) @ \<lparr>Key = key, Value = value\<rparr> # drop i (data ss)\<rparr>)"
proof (cases "i < length (data ss) \<and> Key (data ss ! i) = key")
  case True
  then show ?thesis using assms
    by (simp add: Add_def index_at_def store_at_def)
next
  case False
  have "store_at (take (i + 1) (data ss @ [\<lparr>Key = default, Value = default\<rparr>]) @
          copy_go (drop (i + 1) (data ss @ [\<lparr>Key = default, Value = default\<rparr>]))
                  (drop i (data ss @ [\<lparr>Key = default, Value = default\<rparr>]))) i \<lparr>Key = key, Value = value\<rparr>
        = Some (take i (data ss) @ \<lparr>Key = key, Value = value\<rparr> # drop i (data ss))"
    using assms(2) shift_right[OF assms(2)] by (simp add: store_at_def)
  with False show ?thesis using assms
    by (auto simp: Add_def index_at_def slice_from_def Let_def)
qed

lemma Get_unfold:
  assumes "Search (length (data ss)) (\<lambda>i. index_at (data ss) i \<bind> (\<lambda>e. Some (key \<le> Key e))) = Some i"
  shows "Get key ss = Some (if i < length (data ss) \<and> Key (data ss ! i) = key
                            then (Value (data ss ! i), True) else (default, False))"
  using assms by (auto simp: Get_def index_at_def)

lemma Exist_unfold:
  assumes "Search (length (data ss)) (\<lambda>i. index_at (data ss) i \<bind> (\<lambda>e. Some (key \<le> Key e))) = Some i"
  shows "Exist key ss = Some (i < length (data ss) \<and> Key (data ss ! i) = key)"
  using assms by (auto simp: Exist_def index_at_def)

lemma Delete_unfold:
  assumes "Search (length (data ss)) (\<lambda>i. index_at (data ss) i \<bind> (\<lambda>e. Some (key \<le> Key e))) = Some i"
  shows "Delete key ss = Some (if i < length (data ss) \<and> Key (data ss ! i) = key
            then ((Value (data ss ! i), True), ss\<lparr>data := take i (data ss) @ drop (i + 1) (data ss)\<rparr>)
            else ((default, False), ss))"
  using assms by (auto simp: Delete_def index_at_def slice_to_def slice_from_def)

lemma locate_member:
  fixes key :: "'k::linorder"
  assumes "sorted_wrt (<) (map Key d)" and "i \<le> length d"
    and "\<forall>h<i. Key (d ! h) < key"
    and "\<forall>h. i \<le> h \<longrightarrow> h < length d \<longrightarrow> key \<le> Key (d ! h)"
  shows "key \<in> Key ` set d \<longleftrightarrow> i < length d \<and> Key (d ! i) = key"
proof
  assume "i < length d \<and> Key (d ! i) = key"
  then show "key \<in> Key ` set d" by (metis imageI nth_mem)
next
  assume "key \<in> Key ` set d"
  then obtain h where h: "h < length d" "Key (d ! h) = key"
    by (auto simp: in_set_conv_nth)
  with assms(3) have ih: "i \<le> h" by (metis less_irrefl not_le)
  with h have il: "i < length d" by simp
  have "Key (d ! i) \<le> Key (d ! h)"
  proof (cases "i = h")
    case False
    with ih have "i < h" by simp
    with assms(1) h(1) have "Key (d ! i) < Key (d ! h)"
      by (simp add: sorted_wrt_iff_nth_less)
    then show ?thesis by simp
  qed simp
  moreover have "key \<le> Key (d ! i)" using assms(4) il by simp
  ultimately show "i < length d \<and> Key (d ! i) = key" using il h by simp
qed

lemma sorted_insert_at:
  fixes key :: "'k::linorder"
  assumes s: "sorted_wrt (<) (map Key d)" and i: "i \<le> length d"
    and lo: "\<forall>h<i. Key (d ! h) < key"
    and hi: "\<forall>h. i \<le> h \<longrightarrow> h < length d \<longrightarrow> key \<le> Key (d ! h)"
    and absent: "\<not> (i < length d \<and> Key (d ! i) = key)"
  shows "sorted_wrt (<) (map Key (take i d @ \<lparr>Key = key, Value = value\<rparr> # drop i d))"
proof -
  have mem: "key \<notin> Key ` set d"
    using locate_member[OF s i lo hi] absent by simp
  have a: "\<forall>x\<in>set (take i d). Key x < key"
    using lo i by (auto simp: in_set_conv_nth)
  have b: "\<forall>y\<in>set (drop i d). key < Key y"
  proof
    fix y assume "y \<in> set (drop i d)"
    then obtain h where h: "h < length d - i" "y = d ! (i + h)"
      by (auto simp: in_set_conv_nth)
    then have "key \<le> Key y" using hi by simp
    moreover have "Key y \<noteq> key" using mem h by (metis add.commute imageI less_diff_conv nth_mem)
    ultimately show "key < Key y" by simp
  qed
  have c: "\<forall>x\<in>set (take i d). \<forall>y\<in>set (drop i d). Key x < Key y"
    using a b by (meson less_trans)
  have st: "sorted_wrt (<) (map Key (take i d))" and sd: "sorted_wrt (<) (map Key (drop i d))"
    using s by (simp_all add: take_map[symmetric] drop_map[symmetric] sorted_wrt_take sorted_wrt_drop)
  show ?thesis using a b c st sd by (simp add: sorted_wrt_append)
qed

lemma sorted_remove_at:
  assumes "sorted_wrt P xs"
  shows "sorted_wrt P (take i xs @ drop (i + 1) xs)"
proof (cases "i < length xs")
  case True
  then have "xs = take i xs @ xs ! i # drop (i + 1) xs"
    by (simp add: id_take_nth_drop)
  then have "sorted_wrt P (take i xs @ xs ! i # drop (i + 1) xs)"
    using assms by simp
  then show ?thesis by (simp add: sorted_wrt_append)
next
  case False
  then show ?thesis using assms by simp
qed

lemma Add_ascending:
  assumes "ascending ss"
  shows "\<exists>ss'. Add key value ss = Some ss' \<and> ascending ss'"
proof -
  from locate_sorted[OF assms[unfolded ascending_def], of key]
  obtain i where i: "Search (length (data ss)) (\<lambda>i. index_at (data ss) i \<bind> (\<lambda>e. Some (key \<le> Key e))) = Some i"
      "i \<le> length (data ss)" "\<forall>h<i. Key (data ss ! h) < key"
      "\<forall>h. i \<le> h \<longrightarrow> h < length (data ss) \<longrightarrow> key \<le> Key (data ss ! h)"
    by blast
  show ?thesis
  proof (cases "i < length (data ss) \<and> Key (data ss ! i) = key")
    case True
    have "(map Key (data ss))[i := map Key (data ss) ! i] = map Key (data ss)"
      by (rule list_update_id)
    with True have "map Key ((data ss)[i := (data ss ! i)\<lparr>Value := value\<rparr>]) = map Key (data ss)"
      by (simp add: map_update)
    then show ?thesis using Add_unfold[OF i(1,2), of "value"] True assms
      by (simp add: ascending_def)
  next
    case False
    from sorted_insert_at[OF assms[unfolded ascending_def] i(2,3,4) False, of "value"]
    show ?thesis using Add_unfold[OF i(1,2), of "value"] False
      by (simp add: ascending_def)
  qed
qed

lemma Delete_ascending:
  assumes "ascending ss"
  shows "\<exists>r ss'. Delete key ss = Some (r, ss') \<and> ascending ss'"
proof -
  from locate_total[of "data ss" key]
  obtain i where i: "Search (length (data ss)) (\<lambda>i. index_at (data ss) i \<bind> (\<lambda>e. Some (key \<le> Key e))) = Some i"
    by blast
  have "sorted_wrt (<) (take i (map Key (data ss)) @ drop (i + 1) (map Key (data ss)))"
    using assms unfolding ascending_def by (rule sorted_remove_at)
  then show ?thesis using Delete_unfold[OF i] assms
    by (cases "i < length (data ss) \<and> Key (data ss ! i) = key")
       (auto simp: ascending_def take_map drop_map)
qed

lemma apply_op_ascending:
  assumes "ascending ss"
  shows "\<exists>ss'. apply_op x ss = Some ss' \<and> ascending ss'"
proof (cases x)
  case (OpDelete k)
  from Delete_ascending[OF assms, of k] show ?thesis using OpDelete by auto
next
  case (OpRemove k)
  from Delete_ascending[OF assms, of k] show ?thesis using OpRemove by (auto simp: Remove_def)
next
  case OpClear
  then show ?thesis by (simp add: Clear_def ascending_def)
qed (use Add_ascending[OF assms] in \<open>simp_all add: Set_def Store_def\<close>)

lemma run_ascending:
  "ascending ss \<Longrightarrow> \<exists>ss'. run xs ss = Some ss' \<and> ascending ss'"
proof (induction xs arbitrary: ss)
  case Nil
  then show ?case by simp
next
  case (Cons x xs)
  from apply_op_ascending[OF Cons.prems, of x]
  obtain ss1 where "apply_op x ss = Some ss1" "ascending ss1" by blast
  with Cons.IH[of ss1] show ?case by simp
qed

subsection \<open>Lookup and the entries a mutation keeps\<close>

lemma ascending_locate:
  fixes key :: "'k::linorder"
  assumes "ascending ss"
  shows "\<exists>i. Search (length (data ss)) (\<lambda>i. index_at (data ss) i \<bind> (\<lambda>e. Some (key \<le> Key e))) = Some i \<and>
             i \<le> length (data ss) \<and> (\<forall>h<i. Key (data ss ! h) < key) \<and>
             (\<forall>h. i \<le> h \<longrightarrow> h < length (data ss) \<longrightarrow> key \<le> Key (data ss ! h)) \<and>
             (key \<in> keys ss \<longleftrightarrow> i < length (data ss) \<and> Key (data ss ! i) = key)"
proof -
  from locate_sorted[OF assms[unfolded ascending_def], of key]
  obtain i where i: "Search (length (data ss)) (\<lambda>i. index_at (data ss) i \<bind> (\<lambda>e. Some (key \<le> Key e))) = Some i"
      "i \<le> length (data ss)" "\<forall>h<i. Key (data ss ! h) < key"
      "\<forall>h. i \<le> h \<longrightarrow> h < length (data ss) \<longrightarrow> key \<le> Key (data ss ! h)"
    by blast
  from locate_member[OF assms[unfolded ascending_def] i(2,3,4)] i show ?thesis
    unfolding keys_def by blast
qed

lemma distinct_entries: "ascending ss \<Longrightarrow> distinct (map fst (entries ss))"
proof -
  assume "ascending ss"
  then have "distinct (map Key (data ss))"
    unfolding ascending_def using strict_sorted_iff by blast
  moreover have "map fst (entries ss) = map Key (data ss)"
    by (simp add: entries_def comp_def)
  ultimately show ?thesis by simp
qed

lemma keys_entries: "keys ss = fst ` set (entries ss)"
  by (force simp: keys_def entries_def)

lemma Exist_ascending:
  assumes "ascending ss"
  shows "Exist key ss = Some (key \<in> keys ss)"
proof -
  from ascending_locate[OF assms, of key] obtain i where
    "Search (length (data ss)) (\<lambda>i. index_at (data ss) i \<bind> (\<lambda>e. Some (key \<le> Key e))) = Some i"
    "key \<in> keys ss \<longleftrightarrow> i < length (data ss) \<and> Key (data ss ! i) = key"
    by blast
  then show ?thesis using Exist_unfold[of ss key i] by simp
qed

lemma Get_ascending:
  assumes "ascending ss"
  shows "Get key ss = Some (case map_of (entries ss) key of
                              None \<Rightarrow> (default, False) | Some v \<Rightarrow> (v, True))"
proof -
  from ascending_locate[OF assms, of key] obtain i where i:
    "Search (length (data ss)) (\<lambda>i. index_at (data ss) i \<bind> (\<lambda>e. Some (key \<le> Key e))) = Some i"
    "key \<in> keys ss \<longleftrightarrow> i < length (data ss) \<and> Key (data ss ! i) = key"
    by blast
  show ?thesis
  proof (cases "key \<in> keys ss")
    case True
    with i have il: "i < length (data ss)" and ki: "Key (data ss ! i) = key" by auto
    then have "(key, Value (data ss ! i)) \<in> set (entries ss)"
      unfolding entries_def by (metis (mono_tags, lifting) image_eqI nth_mem set_map)
    with distinct_entries[OF assms] have "map_of (entries ss) key = Some (Value (data ss ! i))"
      by simp
    with il ki show ?thesis using Get_unfold[OF i(1)] by simp
  next
    case False
    then have "map_of (entries ss) key = None"
      by (simp add: keys_entries map_of_eq_None_iff)
    with False i show ?thesis using Get_unfold[OF i(1)] by auto
  qed
qed

text \<open>The entries with another key, in their order, are what a keyed mutation keeps.\<close>

lemma filter_update_at:
  assumes "i < length d" and "\<not> P (d ! i)" and "\<not> P e"
  shows "filter P (d[i := e]) = filter P d"
proof -
  have "d[i := e] = take i d @ e # drop (Suc i) d"
    using assms(1) by (simp add: upd_conv_take_nth_drop)
  moreover have "d = take i d @ d ! i # drop (Suc i) d"
    using assms(1) by (simp add: id_take_nth_drop)
  ultimately have "filter P (d[i := e]) = filter P (take i d) @ filter P (drop (Suc i) d)"
    and "filter P d = filter P (take i d) @ filter P (drop (Suc i) d)"
    using assms(2,3) by (simp, metis filter.simps(2) filter_append)
  then show ?thesis by simp
qed

lemma filter_insert_at:
  assumes "\<not> P e"
  shows "filter P (take i d @ e # drop i d) = filter P d"
proof -
  have "filter P (take i d @ e # drop i d) = filter P (take i d) @ filter P (drop i d)"
    using assms by simp
  also have "\<dots> = filter P (take i d @ drop i d)"
    by (simp only: filter_append)
  also have "\<dots> = filter P d"
    by (simp only: append_take_drop_id)
  finally show ?thesis .
qed

lemma filter_remove_at:
  assumes "i < length d" and "\<not> P (d ! i)"
  shows "filter P (take i d @ drop (i + 1) d) = filter P d"
proof -
  have "d = take i d @ d ! i # drop (i + 1) d"
    using assms(1) by (simp add: id_take_nth_drop)
  then have "filter P d = filter P (take i d @ d ! i # drop (i + 1) d)" by simp
  also have "\<dots> = filter P (take i d @ drop (i + 1) d)" using assms(2) by simp
  finally show ?thesis by simp
qed

lemma Add_others:
  "\<exists>ss'. Add key value ss = Some ss' \<and>
         filter (\<lambda>e. Key e \<noteq> key) (data ss') = filter (\<lambda>e. Key e \<noteq> key) (data ss)"
proof -
  from locate_total[of "data ss" key] obtain i where i:
    "Search (length (data ss)) (\<lambda>i. index_at (data ss) i \<bind> (\<lambda>e. Some (key \<le> Key e))) = Some i"
    "i \<le> length (data ss)" by blast
  show ?thesis
  proof (cases "i < length (data ss) \<and> Key (data ss ! i) = key")
    case True
    then show ?thesis using Add_unfold[OF i, of "value"]
      by (simp add: filter_update_at)
  next
    case False
    have "filter (\<lambda>e. Key e \<noteq> key) (take i (data ss) @ \<lparr>Key = key, Value = value\<rparr> # drop i (data ss))
          = filter (\<lambda>e. Key e \<noteq> key) (data ss)"
      by (rule filter_insert_at) simp
    with False show ?thesis using Add_unfold[OF i, of "value"]
      by (auto simp del: filter_append filter.simps)
  qed
qed

lemma Delete_others:
  "\<exists>r ss'. Delete key ss = Some (r, ss') \<and>
         filter (\<lambda>e. Key e \<noteq> key) (data ss') = filter (\<lambda>e. Key e \<noteq> key) (data ss)"
proof -
  from locate_total[of "data ss" key] obtain i where i:
    "Search (length (data ss)) (\<lambda>i. index_at (data ss) i \<bind> (\<lambda>e. Some (key \<le> Key e))) = Some i"
    "i \<le> length (data ss)" by blast
  show ?thesis
  proof (cases "i < length (data ss) \<and> Key (data ss ! i) = key")
    case True
    then show ?thesis using Delete_unfold[OF i(1)] filter_remove_at[of i "data ss" "\<lambda>e. Key e \<noteq> key"]
      by auto
  next
    case False
    then show ?thesis using Delete_unfold[OF i(1)] by auto
  qed
qed

lemma map_of_others:
  assumes f: "filter (\<lambda>e. Key e \<noteq> key) (data ss') = filter (\<lambda>e. Key e \<noteq> key) (data ss)"
    and a: "ascending ss" and a': "ascending ss'" and ne: "k' \<noteq> key"
  shows "map_of (entries ss') k' = map_of (entries ss) k'"
proof -
  have mem: "(k', v) \<in> set (entries t) \<longleftrightarrow>
        (\<exists>e \<in> set (filter (\<lambda>e. Key e \<noteq> key) (data t)). Key e = k' \<and> Value e = v)" for v and t :: "('a, 'b) SortedSlice"
    using ne by (auto simp: entries_def)
  have eq: "map_of (entries ss') k' = Some v \<longleftrightarrow> map_of (entries ss) k' = Some v" for v
  proof -
    have "map_of (entries ss') k' = Some v \<longleftrightarrow> (k', v) \<in> set (entries ss')"
      using distinct_entries[OF a'] by (rule map_of_eq_Some_iff)
    also have "\<dots> \<longleftrightarrow> (k', v) \<in> set (entries ss)"
      unfolding mem[of v ss] mem[of v ss'] f ..
    also have "\<dots> \<longleftrightarrow> map_of (entries ss) k' = Some v"
      using distinct_entries[OF a] by (rule map_of_eq_Some_iff[symmetric])
    finally show ?thesis .
  qed
  show ?thesis
  proof (cases "map_of (entries ss') k'")
    case None
    have "map_of (entries ss) k' = None"
    proof (rule ccontr)
      assume "map_of (entries ss) k' \<noteq> None"
      then obtain v where "map_of (entries ss) k' = Some v" by blast
      with eq[of v] None show False by simp
    qed
    with None show ?thesis by simp
  next
    case (Some v)
    with eq[of v] show ?thesis by simp
  qed
qed

lemma Add_Get:
  fixes key :: "'k::{linorder, default}" and "value" :: "'v::default"
  assumes "ascending ss"
  shows "\<exists>ss'. Add key value ss = Some ss' \<and> ascending ss' \<and> key \<in> keys ss' \<and>
           Get key ss' = Some (value, True) \<and>
           Len ss' = (if key \<in> keys ss then Len ss else Len ss + 1)"
proof -
  from ascending_locate[OF assms, of key] obtain i where i:
    "Search (length (data ss)) (\<lambda>i. index_at (data ss) i \<bind> (\<lambda>e. Some (key \<le> Key e))) = Some i"
    "i \<le> length (data ss)"
    "key \<in> keys ss \<longleftrightarrow> i < length (data ss) \<and> Key (data ss ! i) = key"
    by blast
  from Add_ascending[OF assms, of key "value"] obtain ss' where ss':
    "Add key value ss = Some ss'" "ascending ss'" by blast
  have d: "data ss' = (if key \<in> keys ss then (data ss)[i := (data ss ! i)\<lparr>Value := value\<rparr>]
                       else take i (data ss) @ \<lparr>Key = key, Value = value\<rparr> # drop i (data ss))"
    using Add_unfold[OF i(1,2), of "value"] ss'(1) i(3) by auto
  have len: "Len ss' = (if key \<in> keys ss then Len ss else Len ss + 1)"
    using d i(2) by (simp add: Len_def)
  have mem: "\<lparr>Key = key, Value = value\<rparr> \<in> set (data ss')"
  proof (cases "key \<in> keys ss")
    case True
    with i(3) have "i < length (data ss)" "(data ss ! i)\<lparr>Value := value\<rparr> = \<lparr>Key = key, Value = value\<rparr>"
      by auto
    with True d show ?thesis by (metis set_update_memI)
  next
    case False
    with d show ?thesis by simp
  qed
  then have "(key, value) \<in> set (entries ss')"
    unfolding entries_def by force
  then have "map_of (entries ss') key = Some value" "key \<in> keys ss'"
    using distinct_entries[OF ss'(2)] by (simp, force simp: keys_entries)
  then show ?thesis using ss' len Get_ascending[OF ss'(2), of key] by simp
qed

lemma Delete_absent:
  fixes key :: "'k::linorder"
  assumes "ascending ss"
  shows "\<exists>r ss'. Delete key ss = Some (r, ss') \<and> ascending ss' \<and> key \<notin> keys ss'"
proof -
  from ascending_locate[OF assms, of key] obtain i where i:
    "Search (length (data ss)) (\<lambda>i. index_at (data ss) i \<bind> (\<lambda>e. Some (key \<le> Key e))) = Some i"
    "key \<in> keys ss \<longleftrightarrow> i < length (data ss) \<and> Key (data ss ! i) = key"
    by blast
  from Delete_ascending[OF assms, of key] obtain r ss' where ss':
    "Delete key ss = Some (r, ss')" "ascending ss'" by blast
  have "key \<notin> keys ss'"
  proof (cases "key \<in> keys ss")
    case False
    with i ss'(1) Delete_unfold[OF i(1)] show ?thesis by auto
  next
    case True
    with i have il: "i < length (data ss)" and ki: "Key (data ss ! i) = key" by auto
    with ss'(1) Delete_unfold[OF i(1)] have d: "data ss' = take i (data ss) @ drop (i + 1) (data ss)"
      by auto
    have "distinct (map Key (data ss))"
      using assms unfolding ascending_def using strict_sorted_iff by blast
    moreover have "data ss = take i (data ss) @ data ss ! i # drop (i + 1) (data ss)"
      using il by (simp add: id_take_nth_drop)
    ultimately have "distinct (map Key (take i (data ss) @ data ss ! i # drop (i + 1) (data ss)))"
      by simp
    then have "Key (data ss ! i) \<notin> Key ` set (take i (data ss) @ drop (i + 1) (data ss))"
      by auto
    with d ki show ?thesis by (simp add: keys_def)
  qed
  with ss' show ?thesis by blast
qed

lemma keys_others:
  assumes "filter (\<lambda>e. Key e \<noteq> key) (data ss') = filter (\<lambda>e. Key e \<noteq> key) (data ss)"
    and "k' \<noteq> key"
  shows "k' \<in> keys ss' \<longleftrightarrow> k' \<in> keys ss"
proof -
  have k: "k' \<in> keys t \<longleftrightarrow> k' \<in> Key ` set (filter (\<lambda>e. Key e \<noteq> key) (data t))"
    for t :: "('a, 'b) SortedSlice"
    using assms(2) by (auto simp: keys_def)
  show ?thesis unfolding k[of ss'] k[of ss] assms(1) ..
qed

subsection \<open>Ranging\<close>

lemma RangeBackward_loop_rev:
  "i \<le> length d \<Longrightarrow> RangeBackward_loop f d i s = Some (Range_loop f (drop i (rev d)) s)"
proof (induction f d i s rule: RangeBackward_loop.induct)
  case (1 f d i s)
  show ?case
  proof (cases "i < length d")
    case False
    with "1.prems" show ?thesis by simp
  next
    case True
    let ?e = "d ! (length d - i - 1)"
    have ix: "index_at d (length d - i - 1) = Some ?e"
      using True by (simp add: index_at_def)
    have "rev d ! i = ?e"
      using True by (simp add: rev_nth)
    with True have dr: "drop i (rev d) = ?e # drop (i + 1) (rev d)"
      by (metis Cons_nth_drop_Suc Suc_eq_plus1 length_rev)
    obtain c s' where fe: "f (Key ?e) (Value ?e) s = (c, s')"
      by (cases "f (Key ?e) (Value ?e) s")
    show ?thesis
    proof (cases c)
      case False
      with True ix fe dr show ?thesis
        by (simp del: RangeBackward_loop.simps add: RangeBackward_loop.simps[of f d i s])
    next
      case c: True
      have "RangeBackward_loop f d (i + 1) s' = Some (Range_loop f (drop (i + 1) (rev d)) s')"
        using "1.IH"[OF True ix fe[symmetric]] c True by simp
      with True ix fe dr c show ?thesis
        by (simp del: RangeBackward_loop.simps add: RangeBackward_loop.simps[of f d i s])
    qed
  qed
qed

lemma RangeBackward_rev:
  "RangeBackward f ss s = Some (Range f (ss\<lparr>data := rev (data ss)\<rparr>) s)"
  using RangeBackward_loop_rev[of 0 "data ss" f s]
  by (simp add: RangeBackward_def Range_def)

lemma Range_loop_recording:
  "\<exists>n\<le>length d.
     Range_loop (recording f) d (s, log) =
       (Range_loop f d s, log @ take n (map (\<lambda>e. (Key e, Value e)) d)) \<and>
     (d \<noteq> [] \<longrightarrow> 0 < n) \<and>
     (\<forall>m. m + 1 < n \<longrightarrow> fst (f (Key (d ! m)) (Value (d ! m)) (Range_loop f (take m d) s))) \<and>
     (n < length d \<longrightarrow>
        \<not> fst (f (Key (d ! (n - 1))) (Value (d ! (n - 1))) (Range_loop f (take (n - 1) d) s)))"
proof (induction d arbitrary: s log)
  case Nil
  then show ?case by simp
next
  case (Cons e es)
  obtain c s' where fe: "f (Key e) (Value e) s = (c, s')"
    by (cases "f (Key e) (Value e) s")
  show ?case
  proof (cases c)
    case False
    with fe have "Range_loop (recording f) (e # es) (s, log) =
        (Range_loop f (e # es) s, log @ take 1 (map (\<lambda>e. (Key e, Value e)) (e # es)))"
      by (simp add: recording_def)
    moreover have "\<not> fst (f (Key ((e # es) ! (1 - 1))) (Value ((e # es) ! (1 - 1)))
                     (Range_loop f (take (1 - 1) (e # es)) s))"
      using fe False by simp
    ultimately show ?thesis
      by (intro exI[of _ 1]) simp
  next
    case True
    from Cons.IH[of s' "log @ [(Key e, Value e)]"] obtain n where n:
      "n \<le> length es"
      "Range_loop (recording f) es (s', log @ [(Key e, Value e)]) =
         (Range_loop f es s', (log @ [(Key e, Value e)]) @ take n (map (\<lambda>e. (Key e, Value e)) es))"
      "es \<noteq> [] \<longrightarrow> 0 < n"
      "\<forall>m. m + 1 < n \<longrightarrow> fst (f (Key (es ! m)) (Value (es ! m)) (Range_loop f (take m es) s'))"
      "n < length es \<longrightarrow>
         \<not> fst (f (Key (es ! (n - 1))) (Value (es ! (n - 1))) (Range_loop f (take (n - 1) es) s'))"
      by blast
    have step: "Range_loop f (take (Suc m) (e # es)) s = Range_loop f (take m es) s'" for m
      using fe True by simp
    have a: "Range_loop (recording f) (e # es) (s, log) =
        (Range_loop f (e # es) s, log @ take (Suc n) (map (\<lambda>e. (Key e, Value e)) (e # es)))"
      using fe True n(2) by (simp add: recording_def)
    have b: "\<forall>m. m + 1 < Suc n \<longrightarrow>
        fst (f (Key ((e # es) ! m)) (Value ((e # es) ! m)) (Range_loop f (take m (e # es)) s))"
    proof (intro allI impI)
      fix m assume m: "m + 1 < Suc n"
      show "fst (f (Key ((e # es) ! m)) (Value ((e # es) ! m)) (Range_loop f (take m (e # es)) s))"
      proof (cases m)
        case 0
        with fe True show ?thesis by simp
      next
        case (Suc m')
        with m have "m' + 1 < n" by simp
        with n(4) have "fst (f (Key (es ! m')) (Value (es ! m')) (Range_loop f (take m' es) s'))"
          by blast
        with Suc step[of m'] show ?thesis by simp
      qed
    qed
    have c: "Suc n < length (e # es) \<longrightarrow>
        \<not> fst (f (Key ((e # es) ! (Suc n - 1))) (Value ((e # es) ! (Suc n - 1)))
                 (Range_loop f (take (Suc n - 1) (e # es)) s))"
    proof
      assume "Suc n < length (e # es)"
      then have nl: "n < length es" by simp
      with n(3) have "0 < n" by auto
      then obtain n' where n': "n = Suc n'" by (cases n) auto
      from n(5) nl n' have "\<not> fst (f (Key (es ! n')) (Value (es ! n')) (Range_loop f (take n' es) s'))"
        by simp
      with n' step[of n'] show "\<not> fst (f (Key ((e # es) ! (Suc n - 1))) (Value ((e # es) ! (Suc n - 1)))
                 (Range_loop f (take (Suc n - 1) (e # es)) s))"
        by simp
    qed
    show ?thesis
      using n(1) a b c by (intro exI[of _ "Suc n"]) simp
  qed
qed

lemma Range_loop_stop_after:
  "calls < N \<Longrightarrow> N \<le> calls + length d \<Longrightarrow>
   Range_loop (recording (stop_after N)) d (calls, log) =
     (N, log @ take (N - calls) (map (\<lambda>e. (Key e, Value e)) d))"
proof (induction d arbitrary: calls log)
  case Nil
  then show ?case by simp
next
  case (Cons e es)
  show ?case
  proof (cases "Suc calls < N")
    case True
    with Cons.prems have "N \<le> Suc calls + length es" by simp
    from Cons.IH[OF True this, of "log @ [(Key e, Value e)]"] True
    show ?thesis
      by (simp add: recording_def stop_after_def Suc_diff_Suc take_Cons')
  next
    case False
    with Cons.prems have "N = Suc calls" by simp
    then show ?thesis
      by (simp add: recording_def stop_after_def)
  qed
qed

lemma entries_descending:
  "ascending ss \<Longrightarrow> sorted_wrt (>) (map fst (rev (entries ss)))"
proof -
  assume "ascending ss"
  then have "sorted_wrt (<) (map fst (entries ss))"
    by (simp add: ascending_def entries_def comp_def)
  then have "sorted_wrt (\<lambda>x y. y < x) (rev (map fst (entries ss)))"
    by (simp add: sorted_wrt_rev)
  then show ?thesis by (simp add: rev_map)
qed

lemma Range_recording:
  "\<exists>n\<le>Len ss.
     Range (recording f) ss (s, []) = (Range f ss s, take n (entries ss)) \<and>
     (\<forall>m. m + 1 < n \<longrightarrow>
        fst (f (Key (data ss ! m)) (Value (data ss ! m)) (Range f (ss\<lparr>data := take m (data ss)\<rparr>) s))) \<and>
     (n < Len ss \<longrightarrow> 0 < n \<and>
        \<not> fst (f (Key (data ss ! (n - 1))) (Value (data ss ! (n - 1)))
                 (Range f (ss\<lparr>data := take (n - 1) (data ss)\<rparr>) s)))"
proof -
  from Range_loop_recording[of "data ss" f s "[]"] obtain n where n:
    "n \<le> length (data ss)"
    "Range_loop (recording f) (data ss) (s, []) =
       (Range_loop f (data ss) s, [] @ take n (map (\<lambda>e. (Key e, Value e)) (data ss)))"
    "data ss \<noteq> [] \<longrightarrow> 0 < n"
    "\<forall>m. m + 1 < n \<longrightarrow>
       fst (f (Key (data ss ! m)) (Value (data ss ! m)) (Range_loop f (take m (data ss)) s))"
    "n < length (data ss) \<longrightarrow>
        \<not> fst (f (Key (data ss ! (n - 1))) (Value (data ss ! (n - 1)))
                 (Range_loop f (take (n - 1) (data ss)) s))"
    by blast
  have "n < length (data ss) \<longrightarrow> 0 < n" using n(3) by auto
  with n show ?thesis
    by (intro exI[of _ n]) (simp add: Range_def Len_def entries_def)
qed

subsection \<open>The codec after encoding/gob\<close>



section \<open>The claims\<close>

subsection \<open>Sortedness\<close>

lemma run_example:
  "run [OpAdd (3::int) ''three'', OpStore 1 ''one'', OpSet 2 ''two'', OpAdd 3 ''III'', OpDelete 1, OpRemove 9]
       New = Some \<lparr>data = [\<lparr>Key = 2, Value = ''two''\<rparr>, \<lparr>Key = 3, Value = ''III''\<rparr>]\<rparr>"
  by code_simp

text \<open>
  C1. Starting from the empty map \<open>New\<close>, every sequence of \<open>Add\<close>, \<open>Set\<close>, \<open>Store\<close>,
  \<open>Delete\<close>, \<open>Remove\<close> and \<open>Clear\<close> runs without a panic and leaves the stored entries
  strictly ascending by key: each entry's key is below the key of the next entry, hence
  the keys are sorted and no key occurs twice. Every prefix of a sequence is a sequence,
  so this is the state after each operation.
\<close>

theorem sortedness_invariant:
  fixes ops :: "('k::{linorder, default}, 'v::default) op list"
  shows "\<exists>ss. run ops New = Some ss \<and>
           (\<forall>i. i + 1 < length (data ss) \<longrightarrow> Key (data ss ! i) < Key (data ss ! (i + 1))) \<and>
           sorted_wrt (<) (map Key (data ss)) \<and>
           distinct (map Key (data ss))"
proof -
  have "ascending (New :: ('k, 'v) SortedSlice)"
    by (simp add: ascending_def New_def)
  from run_ascending[OF this, of ops]
  obtain ss where ss: "run ops New = Some ss" "sorted_wrt (<) (map Key (data ss))"
    by (auto simp: ascending_def)
  have "\<forall>i. i + 1 < length (data ss) \<longrightarrow> Key (data ss ! i) < Key (data ss ! (i + 1))"
    using ss(2) by (simp add: sorted_wrt_iff_nth_less)
  moreover have "distinct (map Key (data ss))"
    using ss(2) strict_sorted_iff by blast
  ultimately show ?thesis using ss by blast
qed

theorem sortedness_invariant_witness:
  "\<exists>ss. run [OpAdd (3::int) ''three'', OpStore 1 ''one'', OpSet 2 ''two'', OpAdd 3 ''III'',
              OpDelete 1, OpRemove 9] New = Some ss \<and>
        0 + 1 < length (data ss) \<and> Key (data ss ! 0) < Key (data ss ! (0 + 1))"
proof -
  from sortedness_invariant[of "[OpAdd (3::int) ''three'', OpStore 1 ''one'', OpSet 2 ''two'',
      OpAdd 3 ''III'', OpDelete 1, OpRemove 9]"]
  obtain ss where ss: "run [OpAdd (3::int) ''three'', OpStore 1 ''one'', OpSet 2 ''two'',
      OpAdd 3 ''III'', OpDelete 1, OpRemove 9] New = Some ss"
    "\<forall>i. i + 1 < length (data ss) \<longrightarrow> Key (data ss ! i) < Key (data ss ! (i + 1))"
    by blast
  from ss(1) have "length (data ss) = 2" unfolding run_example by auto
  then have "0 + 1 < length (data ss)" by simp
  with ss show ?thesis by blast
qed

subsection \<open>The locate primitive\<close>

text \<open>
  C3. On a sequence strictly ascending by key, the binary search that \<open>Add\<close>, \<open>Get\<close>,
  \<open>Exist\<close> and \<open>Delete\<close> make (the same call with the same closure in each) returns
  without a panic the smallest index \<open>i\<close> whose key is at least \<open>key\<close>: no index below
  \<open>i\<close> has such a key, index \<open>i\<close> has one when it is inside the sequence, and \<open>i\<close> is
  the length when no index has one. The key is stored exactly when \<open>i\<close> is inside the
  sequence and holds that key, which is what \<open>Exist\<close> returns; the results of \<open>Get\<close>,
  \<open>Delete\<close> and \<open>Add\<close> are the functions of this index \<open>i\<close> that their bodies compute.
\<close>

theorem locate_insertion_point:
  fixes key :: "'k::{linorder, default}" and "value" :: "'v::default"
  assumes "ascending ss"
  shows "\<exists>i. Search (length (data ss)) (\<lambda>i. index_at (data ss) i \<bind> (\<lambda>e. Some (key \<le> Key e))) = Some i \<and>
             i \<le> length (data ss) \<and>
             (\<forall>h<i. \<not> key \<le> Key (data ss ! h)) \<and>
             (i < length (data ss) \<longrightarrow> key \<le> Key (data ss ! i)) \<and>
             ((\<forall>h<length (data ss). \<not> key \<le> Key (data ss ! h)) \<longrightarrow> i = length (data ss)) \<and>
             (key \<in> keys ss \<longleftrightarrow> i < length (data ss) \<and> Key (data ss ! i) = key) \<and>
             Exist key ss = Some (i < length (data ss) \<and> Key (data ss ! i) = key) \<and>
             Get key ss = Some (if i < length (data ss) \<and> Key (data ss ! i) = key
                                then (Value (data ss ! i), True) else (default, False)) \<and>
             Delete key ss = Some (if i < length (data ss) \<and> Key (data ss ! i) = key
                then ((Value (data ss ! i), True),
                      ss\<lparr>data := take i (data ss) @ drop (i + 1) (data ss)\<rparr>)
                else ((default, False), ss)) \<and>
             Add key value ss = Some (ss\<lparr>data :=
                if i < length (data ss) \<and> Key (data ss ! i) = key
                then (data ss)[i := (data ss ! i)\<lparr>Value := value\<rparr>]
                else take i (data ss) @ \<lparr>Key = key, Value = value\<rparr> # drop i (data ss)\<rparr>)"
proof -
  from ascending_locate[OF assms, of key] obtain i where i:
    "Search (length (data ss)) (\<lambda>i. index_at (data ss) i \<bind> (\<lambda>e. Some (key \<le> Key e))) = Some i"
    "i \<le> length (data ss)" "\<forall>h<i. Key (data ss ! h) < key"
    "\<forall>h. i \<le> h \<longrightarrow> h < length (data ss) \<longrightarrow> key \<le> Key (data ss ! h)"
    "key \<in> keys ss \<longleftrightarrow> i < length (data ss) \<and> Key (data ss ! i) = key"
    by blast
  have lo: "\<forall>h<i. \<not> key \<le> Key (data ss ! h)"
    using i(3) by (simp add: not_le)
  have at: "i < length (data ss) \<longrightarrow> key \<le> Key (data ss ! i)"
    using i(4) by simp
  have none: "(\<forall>h<length (data ss). \<not> key \<le> Key (data ss ! h)) \<longrightarrow> i = length (data ss)"
    using at i(2) by (metis le_neq_implies_less)
  show ?thesis
    using i(1,2,5) lo at none Exist_unfold[OF i(1)] Get_unfold[OF i(1)] Delete_unfold[OF i(1)]
      Add_unfold[OF i(1,2), of "value"]
    by blast
qed

theorem locate_insertion_point_witness:
  "ascending \<lparr>data = [\<lparr>Key = (1::int), Value = ''one''\<rparr>, \<lparr>Key = 3, Value = ''three''\<rparr>,
                      \<lparr>Key = 5, Value = ''five''\<rparr>]\<rparr> \<and>
   Search 3 (\<lambda>i. index_at [\<lparr>Key = (1::int), Value = ''one''\<rparr>, \<lparr>Key = 3, Value = ''three''\<rparr>,
                      \<lparr>Key = 5, Value = ''five''\<rparr>] i \<bind> (\<lambda>e. Some (4 \<le> Key e))) = Some 2 \<and>
   Exist 4 \<lparr>data = [\<lparr>Key = (1::int), Value = ''one''\<rparr>, \<lparr>Key = 3, Value = ''three''\<rparr>,
                      \<lparr>Key = 5, Value = ''five''\<rparr>]\<rparr> = Some False \<and>
   Exist 3 \<lparr>data = [\<lparr>Key = (1::int), Value = ''one''\<rparr>, \<lparr>Key = 3, Value = ''three''\<rparr>,
                      \<lparr>Key = 5, Value = ''five''\<rparr>]\<rparr> = Some True \<and>
   Search 3 (\<lambda>i. index_at [\<lparr>Key = (1::int), Value = ''one''\<rparr>, \<lparr>Key = 3, Value = ''three''\<rparr>,
                      \<lparr>Key = 5, Value = ''five''\<rparr>] i \<bind> (\<lambda>e. Some (9 \<le> Key e))) = Some 3"
proof -
  let ?d = "[\<lparr>Key = (1::int), Value = ''one''\<rparr>, \<lparr>Key = 3, Value = ''three''\<rparr>,
             \<lparr>Key = 5, Value = ''five''\<rparr>]"
  have a: "ascending \<lparr>data = ?d\<rparr>"
    by (simp add: ascending_def)
  have three: "3 \<in> keys \<lparr>data = ?d\<rparr>" and four: "4 \<notin> keys \<lparr>data = ?d\<rparr>"
    by (simp_all add: keys_def)
  from locate_insertion_point[OF a, of 4 "[] :: string"] obtain i where i:
    "Search (length ?d) (\<lambda>i. index_at ?d i \<bind> (\<lambda>e. Some (4 \<le> Key e))) = Some i"
    "i \<le> length ?d" "\<forall>h<i. \<not> 4 \<le> Key (?d ! h)" "i < length ?d \<longrightarrow> 4 \<le> Key (?d ! i)"
    "Exist 4 \<lparr>data = ?d\<rparr> = Some (i < length ?d \<and> Key (?d ! i) = 4)"
    "4 \<in> keys \<lparr>data = ?d\<rparr> \<longleftrightarrow> i < length ?d \<and> Key (?d ! i) = 4"
    by auto
  have i2: "i = 2"
  proof -
    have "\<not> i < 2"
    proof
      assume "i < 2"
      then have "i = 0 \<or> i = 1" by auto
      with i(4) show False by auto
    qed
    moreover have "\<not> 2 < i"
    proof
      assume "2 < i"
      with i(3) have "\<not> 4 \<le> Key (?d ! 2)" by blast
      then show False by simp
    qed
    ultimately show ?thesis by simp
  qed
  from locate_insertion_point[OF a, of 9 "[] :: string"] obtain j where j:
    "Search (length ?d) (\<lambda>i. index_at ?d i \<bind> (\<lambda>e. Some (9 \<le> Key e))) = Some j"
    "j \<le> length ?d" "j < length ?d \<longrightarrow> 9 \<le> Key (?d ! j)"
    by auto
  have j3: "j = 3"
  proof -
    have "\<not> j < 3"
    proof
      assume "j < 3"
      then have "j = 0 \<or> j = 1 \<or> j = 2" by auto
      with j(3) show False by auto
    qed
    with j(2) show ?thesis by simp
  qed
  from locate_insertion_point[OF a, of 3 "[] :: string"] three
  have e3: "Exist 3 \<lparr>data = ?d\<rparr> = Some True"
    by auto
  have e4: "Exist 4 \<lparr>data = ?d\<rparr> = Some False"
    using i(5,6) four by simp
  show ?thesis using a i(1) i2 j(1) j3 e3 e4 by (simp add: numeral_3_eq_3)
qed

subsection \<open>Insert or update\<close>

text \<open>
  C2. In every state \<open>Add key value\<close> returns without a panic and the size stays or
  grows by one. On a map whose entries are ascending: if the key is stored, only the
  value of its entry is overwritten, in place, and the keys and the size stay as they
  were. If the key is not stored, the new entry is placed at the insertion
  point (all smaller keys before it, all larger keys after it), the entries from there
  on move one slot to the right, and the size grows by exactly one. In both cases a
  lookup of the key then returns the value, and adding the key once more leaves the
  size unchanged and makes the lookup return the later value.
\<close>

theorem Add_insert_or_update:
  fixes key :: "'k::{linorder, default}" and "value" :: "'v::default"
  shows "\<exists>ss'. Add key value ss = Some ss' \<and> Len ss \<le> Len ss' \<and> Len ss' \<le> Len ss + 1 \<and>
          (ascending ss \<longrightarrow>
           (key \<in> keys ss \<longrightarrow>
              (\<exists>i<length (data ss). Key (data ss ! i) = key \<and>
                 data ss' = (data ss)[i := (data ss ! i)\<lparr>Value := value\<rparr>]) \<and>
              map Key (data ss') = map Key (data ss) \<and> Len ss' = Len ss) \<and>
           (key \<notin> keys ss \<longrightarrow>
              (\<exists>i\<le>length (data ss).
                 (\<forall>h<i. Key (data ss ! h) < key) \<and>
                 (\<forall>h. i \<le> h \<longrightarrow> h < length (data ss) \<longrightarrow> key < Key (data ss ! h)) \<and>
                 data ss' = take i (data ss) @ \<lparr>Key = key, Value = value\<rparr> # drop i (data ss)) \<and>
              Len ss' = Len ss + 1) \<and>
           Get key ss' = Some (value, True) \<and>
           (\<forall>value2. \<exists>ss''. Add key value2 ss' = Some ss'' \<and> Len ss'' = Len ss' \<and>
                          Get key ss'' = Some (value2, True)))"
proof -
  from locate_total[of "data ss" key] obtain j where j:
    "Search (length (data ss)) (\<lambda>i. index_at (data ss) i \<bind> (\<lambda>e. Some (key \<le> Key e))) = Some j"
    "j \<le> length (data ss)" by blast
  from Add_unfold[OF j, of "value"] obtain ss' where ss'0:
    "Add key value ss = Some ss'" "Len ss \<le> Len ss'" "Len ss' \<le> Len ss + 1"
    by (cases "j < length (data ss) \<and> Key (data ss ! j) = key") (auto simp: Len_def)
  have "(key \<in> keys ss \<longrightarrow>
              (\<exists>i<length (data ss). Key (data ss ! i) = key \<and>
                 data ss' = (data ss)[i := (data ss ! i)\<lparr>Value := value\<rparr>]) \<and>
              map Key (data ss') = map Key (data ss) \<and> Len ss' = Len ss) \<and>
           (key \<notin> keys ss \<longrightarrow>
              (\<exists>i\<le>length (data ss).
                 (\<forall>h<i. Key (data ss ! h) < key) \<and>
                 (\<forall>h. i \<le> h \<longrightarrow> h < length (data ss) \<longrightarrow> key < Key (data ss ! h)) \<and>
                 data ss' = take i (data ss) @ \<lparr>Key = key, Value = value\<rparr> # drop i (data ss)) \<and>
              Len ss' = Len ss + 1) \<and>
           Get key ss' = Some (value, True) \<and>
           (\<forall>value2. \<exists>ss''. Add key value2 ss' = Some ss'' \<and> Len ss'' = Len ss' \<and>
                          Get key ss'' = Some (value2, True))"
    if assms: "ascending ss"
  proof -
  from ascending_locate[OF assms, of key] obtain i where i:
    "Search (length (data ss)) (\<lambda>i. index_at (data ss) i \<bind> (\<lambda>e. Some (key \<le> Key e))) = Some i"
    "i \<le> length (data ss)" "\<forall>h<i. Key (data ss ! h) < key"
    "\<forall>h. i \<le> h \<longrightarrow> h < length (data ss) \<longrightarrow> key \<le> Key (data ss ! h)"
    "key \<in> keys ss \<longleftrightarrow> i < length (data ss) \<and> Key (data ss ! i) = key"
    by blast
  from Add_Get[OF assms, of key "value"] ss'0(1) have ss':
    "Add key value ss = Some ss'" "ascending ss'" "key \<in> keys ss'"
    "Get key ss' = Some (value, True)"
    "Len ss' = (if key \<in> keys ss then Len ss else Len ss + 1)"
    by auto
  have d: "data ss' = (if key \<in> keys ss then (data ss)[i := (data ss ! i)\<lparr>Value := value\<rparr>]
                       else take i (data ss) @ \<lparr>Key = key, Value = value\<rparr> # drop i (data ss))"
    using Add_unfold[OF i(1,2), of "value"] ss'(1) i(5) by auto
  have present: "key \<in> keys ss \<longrightarrow>
              (\<exists>i<length (data ss). Key (data ss ! i) = key \<and>
                 data ss' = (data ss)[i := (data ss ! i)\<lparr>Value := value\<rparr>]) \<and>
              map Key (data ss') = map Key (data ss) \<and> Len ss' = Len ss"
  proof
    assume k: "key \<in> keys ss"
    with i(5) have il: "i < length (data ss)" and ki: "Key (data ss ! i) = key" by auto
    have "(map Key (data ss))[i := map Key (data ss) ! i] = map Key (data ss)"
      by (rule list_update_id)
    with il have "map Key ((data ss)[i := (data ss ! i)\<lparr>Value := value\<rparr>]) = map Key (data ss)"
      by (simp add: map_update)
    with k d il ki ss'(5) show "(\<exists>i<length (data ss). Key (data ss ! i) = key \<and>
                 data ss' = (data ss)[i := (data ss ! i)\<lparr>Value := value\<rparr>]) \<and>
              map Key (data ss') = map Key (data ss) \<and> Len ss' = Len ss"
      by auto
  qed
  have absent: "key \<notin> keys ss \<longrightarrow>
              (\<exists>i\<le>length (data ss).
                 (\<forall>h<i. Key (data ss ! h) < key) \<and>
                 (\<forall>h. i \<le> h \<longrightarrow> h < length (data ss) \<longrightarrow> key < Key (data ss ! h)) \<and>
                 data ss' = take i (data ss) @ \<lparr>Key = key, Value = value\<rparr> # drop i (data ss)) \<and>
              Len ss' = Len ss + 1"
  proof
    assume k: "key \<notin> keys ss"
    have "\<forall>h. i \<le> h \<longrightarrow> h < length (data ss) \<longrightarrow> key < Key (data ss ! h)"
    proof (intro allI impI)
      fix h assume h: "i \<le> h" "h < length (data ss)"
      then have "key \<le> Key (data ss ! h)" using i(4) by simp
      moreover have "Key (data ss ! h) \<noteq> key"
        using k h(2) unfolding keys_def by (metis imageI nth_mem)
      ultimately show "key < Key (data ss ! h)" by simp
    qed
    with k d i(2,3) ss'(5) show "(\<exists>i\<le>length (data ss).
                 (\<forall>h<i. Key (data ss ! h) < key) \<and>
                 (\<forall>h. i \<le> h \<longrightarrow> h < length (data ss) \<longrightarrow> key < Key (data ss ! h)) \<and>
                 data ss' = take i (data ss) @ \<lparr>Key = key, Value = value\<rparr> # drop i (data ss)) \<and>
              Len ss' = Len ss + 1"
      by auto
  qed
  have again: "\<forall>value2. \<exists>ss''. Add key value2 ss' = Some ss'' \<and> Len ss'' = Len ss' \<and>
                          Get key ss'' = Some (value2, True)"
  proof
    fix value2
    from Add_Get[OF ss'(2), of key value2] ss'(3)
    show "\<exists>ss''. Add key value2 ss' = Some ss'' \<and> Len ss'' = Len ss' \<and>
                          Get key ss'' = Some (value2, True)"
      by auto
  qed
  show ?thesis using ss'(4) present absent again by blast
  qed
  with ss'0 show ?thesis by blast
qed

theorem Add_insert_or_update_witness:
  "ascending \<lparr>data = [\<lparr>Key = (1::int), Value = ''one''\<rparr>, \<lparr>Key = 3, Value = ''three''\<rparr>]\<rparr> \<and>
   3 \<in> keys \<lparr>data = [\<lparr>Key = (1::int), Value = ''one''\<rparr>, \<lparr>Key = 3, Value = ''three''\<rparr>]\<rparr> \<and>
   Add 3 ''III'' \<lparr>data = [\<lparr>Key = (1::int), Value = ''one''\<rparr>, \<lparr>Key = 3, Value = ''three''\<rparr>]\<rparr>
     = Some \<lparr>data = [\<lparr>Key = 1, Value = ''one''\<rparr>, \<lparr>Key = 3, Value = ''III''\<rparr>]\<rparr> \<and>
   Get 3 \<lparr>data = [\<lparr>Key = (1::int), Value = ''one''\<rparr>, \<lparr>Key = 3, Value = ''III''\<rparr>]\<rparr>
     = Some (''III'', True) \<and>
   2 \<notin> keys \<lparr>data = [\<lparr>Key = (1::int), Value = ''one''\<rparr>, \<lparr>Key = 3, Value = ''three''\<rparr>]\<rparr> \<and>
   Add 2 ''two'' \<lparr>data = [\<lparr>Key = (1::int), Value = ''one''\<rparr>, \<lparr>Key = 3, Value = ''three''\<rparr>]\<rparr>
     = Some \<lparr>data = [\<lparr>Key = 1, Value = ''one''\<rparr>, \<lparr>Key = 2, Value = ''two''\<rparr>,
                      \<lparr>Key = 3, Value = ''three''\<rparr>]\<rparr> \<and>
   Get 2 \<lparr>data = [\<lparr>Key = (1::int), Value = ''one''\<rparr>, \<lparr>Key = 2, Value = ''two''\<rparr>,
                      \<lparr>Key = 3, Value = ''three''\<rparr>]\<rparr> = Some (''two'', True)"
proof -
  let ?S = "\<lparr>data = [\<lparr>Key = (1::int), Value = ''one''\<rparr>, \<lparr>Key = 3, Value = ''three''\<rparr>]\<rparr>"
  have a: "ascending ?S" by (simp add: ascending_def)
  have k3: "3 \<in> keys ?S" and k2: "2 \<notin> keys ?S" by (simp_all add: keys_def)
  have e3: "Add 3 ''III'' ?S = Some \<lparr>data = [\<lparr>Key = 1, Value = ''one''\<rparr>, \<lparr>Key = 3, Value = ''III''\<rparr>]\<rparr>"
    by code_simp
  have e2: "Add 2 ''two'' ?S = Some \<lparr>data = [\<lparr>Key = 1, Value = ''one''\<rparr>, \<lparr>Key = 2, Value = ''two''\<rparr>,
                      \<lparr>Key = 3, Value = ''three''\<rparr>]\<rparr>"
    by code_simp
  from Add_insert_or_update[of 3 "''III''" ?S] a obtain s3 where
    "Add 3 ''III'' ?S = Some s3" "Get 3 s3 = Some (''III'', True)" by blast
  with e3 have g3: "Get 3 \<lparr>data = [\<lparr>Key = (1::int), Value = ''one''\<rparr>, \<lparr>Key = 3, Value = ''III''\<rparr>]\<rparr>
     = Some (''III'', True)" by simp
  from Add_insert_or_update[of 2 "''two''" ?S] a obtain s2 where
    "Add 2 ''two'' ?S = Some s2" "Get 2 s2 = Some (''two'', True)" by blast
  with e2 have g2: "Get 2 \<lparr>data = [\<lparr>Key = (1::int), Value = ''one''\<rparr>, \<lparr>Key = 2, Value = ''two''\<rparr>,
                      \<lparr>Key = 3, Value = ''three''\<rparr>]\<rparr> = Some (''two'', True)" by simp
  show ?thesis using a k3 k2 e3 e2 g3 g2 by blast
qed

subsection \<open>Lookup and delete\<close>

text \<open>
  C4. In every state \<open>Get\<close>, \<open>Exist\<close> and \<open>Delete\<close> return without a panic, the found
  flag of \<open>Get\<close> is the result of \<open>Exist\<close>, and \<open>Delete\<close> returns the very pair that
  \<open>Get\<close> returns. For a key that is not stored the pair is the zero value and false.
  When \<open>Delete\<close> does not find the key the map is unchanged; when it does, the value
  returned was stored under the key and the size has dropped by exactly one. On a map
  whose entries are ascending, the key is found exactly when it is stored, and after
  \<open>Delete\<close> the key is no longer there.
\<close>

theorem lookup_delete_agreement:
  fixes key :: "'k::linorder" and ss :: "('k, 'v::default) SortedSlice"
  shows "\<exists>v found ss'.
           Get key ss = Some (v, found) \<and> Exist key ss = Some found \<and>
           Delete key ss = Some ((v, found), ss') \<and>
           (key \<notin> keys ss \<longrightarrow> v = default \<and> \<not> found) \<and>
           (\<not> found \<longrightarrow> v = default \<and> ss' = ss) \<and>
           (found \<longrightarrow> (key, v) \<in> set (entries ss) \<and> Len ss' + 1 = Len ss) \<and>
           (ascending ss \<longrightarrow> (found \<longleftrightarrow> key \<in> keys ss) \<and> Exist key ss' = Some False)"
proof -
  from locate_total[of "data ss" key] obtain i where i:
    "Search (length (data ss)) (\<lambda>i. index_at (data ss) i \<bind> (\<lambda>e. Some (key \<le> Key e))) = Some i"
    "i \<le> length (data ss)" by blast
  let ?hit = "i < length (data ss) \<and> Key (data ss ! i) = key"
  let ?v = "if ?hit then Value (data ss ! i) else default"
  let ?ss' = "if ?hit then ss\<lparr>data := take i (data ss) @ drop (i + 1) (data ss)\<rparr> else ss"
  have g: "Get key ss = Some (?v, ?hit)"
    using Get_unfold[OF i(1)] by simp
  have e: "Exist key ss = Some ?hit"
    using Exist_unfold[OF i(1)] by simp
  have d: "Delete key ss = Some ((?v, ?hit), ?ss')"
    using Delete_unfold[OF i(1)] by simp
  have absent: "key \<notin> keys ss \<longrightarrow> ?v = default \<and> \<not> ?hit"
    unfolding keys_def by (metis imageI nth_mem)
  have miss: "\<not> ?hit \<longrightarrow> ?v = default \<and> ?ss' = ss"
    by simp
  have hit: "?hit \<longrightarrow> (key, ?v) \<in> set (entries ss) \<and> Len ?ss' + 1 = Len ss"
  proof
    assume h: ?hit
    then have "(Key (data ss ! i), Value (data ss ! i)) \<in> set (entries ss)"
      unfolding entries_def by (metis (mono_tags, lifting) image_eqI nth_mem set_map)
    with h show "(key, ?v) \<in> set (entries ss) \<and> Len ?ss' + 1 = Len ss"
      by (auto simp: Len_def)
  qed
  have sorted: "ascending ss \<longrightarrow> (?hit \<longleftrightarrow> key \<in> keys ss) \<and> Exist key ?ss' = Some False"
  proof
    assume a: "ascending ss"
    from Exist_ascending[OF a, of key] e have m: "?hit \<longleftrightarrow> key \<in> keys ss" by simp
    from Delete_absent[OF a, of key] d have "ascending ?ss'" "key \<notin> keys ?ss'" by auto
    then have "Exist key ?ss' = Some False"
      using Exist_ascending[of ?ss' key] by simp
    with m show "(?hit \<longleftrightarrow> key \<in> keys ss) \<and> Exist key ?ss' = Some False" by simp
  qed
  show ?thesis
    using g e d absent miss hit sorted by blast
qed

theorem lookup_delete_agreement_witness:
  "ascending \<lparr>data = [\<lparr>Key = (1::int), Value = ''one''\<rparr>, \<lparr>Key = 2, Value = ''two''\<rparr>,
                      \<lparr>Key = 3, Value = ''three''\<rparr>]\<rparr> \<and>
   Get 2 \<lparr>data = [\<lparr>Key = (1::int), Value = ''one''\<rparr>, \<lparr>Key = 2, Value = ''two''\<rparr>,
                      \<lparr>Key = 3, Value = ''three''\<rparr>]\<rparr> = Some (''two'', True) \<and>
   Exist 2 \<lparr>data = [\<lparr>Key = (1::int), Value = ''one''\<rparr>, \<lparr>Key = 2, Value = ''two''\<rparr>,
                      \<lparr>Key = 3, Value = ''three''\<rparr>]\<rparr> = Some True \<and>
   Delete 2 \<lparr>data = [\<lparr>Key = (1::int), Value = ''one''\<rparr>, \<lparr>Key = 2, Value = ''two''\<rparr>,
                      \<lparr>Key = 3, Value = ''three''\<rparr>]\<rparr>
     = Some ((''two'', True), \<lparr>data = [\<lparr>Key = 1, Value = ''one''\<rparr>, \<lparr>Key = 3, Value = ''three''\<rparr>]\<rparr>) \<and>
   Exist 2 \<lparr>data = [\<lparr>Key = (1::int), Value = ''one''\<rparr>, \<lparr>Key = 3, Value = ''three''\<rparr>]\<rparr>
     = Some False \<and>
   Len \<lparr>data = [\<lparr>Key = (1::int), Value = ''one''\<rparr>, \<lparr>Key = 3, Value = ''three''\<rparr>]\<rparr> + 1
     = Len \<lparr>data = [\<lparr>Key = (1::int), Value = ''one''\<rparr>, \<lparr>Key = 2, Value = ''two''\<rparr>,
                      \<lparr>Key = 3, Value = ''three''\<rparr>]\<rparr> \<and>
   7 \<notin> keys \<lparr>data = [\<lparr>Key = (1::int), Value = ''one''\<rparr>, \<lparr>Key = 2, Value = ''two''\<rparr>,
                      \<lparr>Key = 3, Value = ''three''\<rparr>]\<rparr> \<and>
   Get 7 \<lparr>data = [\<lparr>Key = (1::int), Value = ''one''\<rparr>, \<lparr>Key = 2, Value = ''two''\<rparr>,
                      \<lparr>Key = 3, Value = ''three''\<rparr>]\<rparr> = Some ('''', False)"
proof -
  let ?S = "\<lparr>data = [\<lparr>Key = (1::int), Value = ''one''\<rparr>, \<lparr>Key = 2, Value = ''two''\<rparr>,
                      \<lparr>Key = 3, Value = ''three''\<rparr>]\<rparr>"
  let ?T = "\<lparr>data = [\<lparr>Key = (1::int), Value = ''one''\<rparr>, \<lparr>Key = 3, Value = ''three''\<rparr>]\<rparr>"
  have a: "ascending ?S" by (simp add: ascending_def)
  have k7: "7 \<notin> keys ?S" by (simp add: keys_def)
  have d2: "Delete 2 ?S = Some ((''two'', True), ?T)" by code_simp
  from lookup_delete_agreement[of 2 ?S] obtain v found ss' where r:
    "Get 2 ?S = Some (v, found)" "Exist 2 ?S = Some found" "Delete 2 ?S = Some ((v, found), ss')"
    "found \<longrightarrow> Len ss' + 1 = Len ?S"
    "ascending ?S \<longrightarrow> Exist 2 ss' = Some False"
    by blast
  from r(3) d2 have eq: "v = ''two''" "found" "ss' = ?T" by simp_all
  from lookup_delete_agreement[of 7 ?S] obtain w fw where
    "Get 7 ?S = Some (w, fw)" "7 \<notin> keys ?S \<longrightarrow> w = default \<and> \<not> fw"
    by blast
  with k7 have g7: "Get 7 ?S = Some ('''', False)" by (simp add: default_list_def)
  show ?thesis using a k7 d2 r(1,2,4,5) eq g7 by simp
qed

subsection \<open>Persistence\<close>



text \<open>
  \<open>Load\<close> hands the decoder the live entry sequence itself. A decoder that writes
  elements into their slots as it reads them, as the codec after \<^verbatim>\<open>encoding/gob\<close>
  does, leaves a changed sequence behind when the input ends early: here a file that
  announces two entries and holds one makes \<open>Load\<close> fail on a three-entry map and leave
  two entries, the first of them overwritten.
\<close>

theorem load_decode_failure_counterexample:
  "Load gob_Decode ''data.gob''
     \<lparr>files = map_of [(''data.gob'', [Count 2, Elem \<lparr>Key = (7::int), Value = ''seven''\<rparr>])], denied = {}\<rparr>
     \<lparr>data = [\<lparr>Key = 1, Value = ''one''\<rparr>, \<lparr>Key = 2, Value = ''two''\<rparr>, \<lparr>Key = 3, Value = ''three''\<rparr>]\<rparr>
   = (Some CodecError, \<lparr>data = [\<lparr>Key = 7, Value = ''seven''\<rparr>, \<lparr>Key = 2, Value = ''two''\<rparr>]\<rparr>) \<and>
   data (snd (Load gob_Decode ''data.gob''
     \<lparr>files = map_of [(''data.gob'', [Count 2, Elem \<lparr>Key = (7::int), Value = ''seven''\<rparr>])], denied = {}\<rparr>
     \<lparr>data = [\<lparr>Key = 1, Value = ''one''\<rparr>, \<lparr>Key = 2, Value = ''two''\<rparr>, \<lparr>Key = 3, Value = ''three''\<rparr>]\<rparr>))
   \<noteq> [\<lparr>Key = 1, Value = ''one''\<rparr>, \<lparr>Key = 2, Value = ''two''\<rparr>, \<lparr>Key = 3, Value = ''three''\<rparr>]"
  by (simp add: Load_def os_Open_def gob_Decode_def numeral_2_eq_2)

text \<open>
  C6, as the code has it. When opening the source fails, \<open>Load\<close> returns that error and
  the map is exactly as before. When the source opens, the error of \<open>Load\<close> is the
  decoder's and the entry sequence afterwards is what the decoder left in the
  destination: there is no staging copy and no rollback, so the prior contents survive a
  decode failure exactly when the decoder left its destination untouched.
\<close>

theorem load_failure_effect:
  "(\<forall>err. os_Open fsys filename = Inl err \<longrightarrow>
      Load Decode filename fsys ss = (Some err, ss)) \<and>
   (\<forall>file. os_Open fsys filename = Inr file \<longrightarrow>
      Load Decode filename fsys ss
        = (fst (Decode file (data ss)), ss\<lparr>data := snd (Decode file (data ss))\<rparr>)) \<and>
   (\<forall>file. os_Open fsys filename = Inr file \<and> snd (Decode file (data ss)) = data ss \<longrightarrow>
      snd (Load Decode filename fsys ss) = ss)"
  by (simp add: Load_def split: prod.splits)

theorem load_failure_effect_witness:
  "os_Open (\<lparr>files = map_of [], denied = {}\<rparr> :: (int, string) kv gob_token filesystem)
     ''missing.gob'' = Inl (PathError ''missing.gob'') \<and>
   Load gob_Decode ''missing.gob'' \<lparr>files = map_of [], denied = {}\<rparr>
     \<lparr>data = [\<lparr>Key = (1::int), Value = ''one''\<rparr>]\<rparr>
   = (Some (PathError ''missing.gob''), \<lparr>data = [\<lparr>Key = 1, Value = ''one''\<rparr>]\<rparr>) \<and>
   os_Open \<lparr>files = map_of [(''bad.gob'', [Elem \<lparr>Key = (7::int), Value = ''seven''\<rparr>])], denied = {}\<rparr> ''bad.gob''
     = Inr [Elem \<lparr>Key = 7, Value = ''seven''\<rparr>] \<and>
   Load gob_Decode ''bad.gob''
     \<lparr>files = map_of [(''bad.gob'', [Elem \<lparr>Key = (7::int), Value = ''seven''\<rparr>])], denied = {}\<rparr>
     \<lparr>data = [\<lparr>Key = (1::int), Value = ''one''\<rparr>]\<rparr>
   = (Some CodecError, \<lparr>data = [\<lparr>Key = 1, Value = ''one''\<rparr>]\<rparr>)"
proof -
  let ?S = "\<lparr>data = [\<lparr>Key = (1::int), Value = ''one''\<rparr>]\<rparr>"
  let ?fs0 = "\<lparr>files = map_of [], denied = {}\<rparr> :: (int, string) kv gob_token filesystem"
  let ?fs1 = "\<lparr>files = map_of [(''bad.gob'', [Elem \<lparr>Key = (7::int), Value = ''seven''\<rparr>])], denied = {}\<rparr>"
  have o0: "os_Open ?fs0 ''missing.gob'' = Inl (PathError ''missing.gob'')"
    by (simp add: os_Open_def)
  have o1: "os_Open ?fs1 ''bad.gob'' = Inr [Elem \<lparr>Key = 7, Value = ''seven''\<rparr>]"
    by (simp add: os_Open_def)
  have dec: "gob_Decode [Elem \<lparr>Key = (7::int), Value = ''seven''\<rparr>] (data ?S) = (Some CodecError, data ?S)"
    by (simp add: gob_Decode_def)
  from load_failure_effect[of ?fs0 "''missing.gob''" gob_Decode ?S] o0
  have l0: "Load gob_Decode ''missing.gob'' ?fs0 ?S = (Some (PathError ''missing.gob''), ?S)"
    by blast
  from load_failure_effect[of ?fs1 "''bad.gob''" gob_Decode ?S] o1
  have "Load gob_Decode ''bad.gob'' ?fs1 ?S
        = (fst (gob_Decode [Elem \<lparr>Key = 7, Value = ''seven''\<rparr>] (data ?S)),
           ?S\<lparr>data := snd (gob_Decode [Elem \<lparr>Key = 7, Value = ''seven''\<rparr>] (data ?S))\<rparr>)"
    by blast
  with dec have l1: "Load gob_Decode ''bad.gob'' ?fs1 ?S = (Some CodecError, ?S)"
    by simp
  show ?thesis using o0 o1 l0 l1 by blast
qed

subsection \<open>Ranging\<close>

text \<open>
  C7. \<open>Range\<close> calls the visit function on the entries in stored order and
  \<open>RangeBackward\<close> in the reverse of it, once per visited entry: the pairs a recording
  visit function has seen are the first \<open>n\<close> entries of that order. Every call before
  the last one returned true, and when fewer than all entries were visited the last call
  returned false, so the traversal stops at the first false. A visit function that
  returns false at its call number \<open>N\<close> (with \<open>N\<close> between one and the size) has seen
  exactly the first \<open>N\<close> entries. On a map whose entries are ascending the stored order
  is from the lowest key to the highest and its reverse from the highest to the lowest.
  \<open>RangeBackward\<close> does not panic.
\<close>

theorem ranging_order_and_early_exit:
  fixes ss :: "('k::linorder, 'v) SortedSlice" and f :: "'k \<Rightarrow> 'v \<Rightarrow> 's \<Rightarrow> bool \<times> 's"
  shows
   "(\<exists>n\<le>Len ss.
       Range (recording f) ss (s, []) = (Range f ss s, take n (entries ss)) \<and>
       (\<forall>m. m + 1 < n \<longrightarrow>
          fst (f (Key (data ss ! m)) (Value (data ss ! m))
                 (Range f (ss\<lparr>data := take m (data ss)\<rparr>) s))) \<and>
       (n < Len ss \<longrightarrow> 0 < n \<and>
          \<not> fst (f (Key (data ss ! (n - 1))) (Value (data ss ! (n - 1)))
                   (Range f (ss\<lparr>data := take (n - 1) (data ss)\<rparr>) s)))) \<and>
    (\<exists>n\<le>Len ss. \<exists>s'.
       RangeBackward f ss s = Some s' \<and>
       RangeBackward (recording f) ss (s, []) = Some (s', take n (rev (entries ss))) \<and>
       (\<forall>m. m + 1 < n \<longrightarrow>
          fst (f (Key (rev (data ss) ! m)) (Value (rev (data ss) ! m))
                 (Range f (ss\<lparr>data := take m (rev (data ss))\<rparr>) s))) \<and>
       (n < Len ss \<longrightarrow> 0 < n \<and>
          \<not> fst (f (Key (rev (data ss) ! (n - 1))) (Value (rev (data ss) ! (n - 1)))
                   (Range f (ss\<lparr>data := take (n - 1) (rev (data ss))\<rparr>) s)))) \<and>
    (0 < N \<and> N \<le> Len ss \<longrightarrow>
       Range (recording (stop_after N)) ss (0, []) = (N, take N (entries ss)) \<and>
       RangeBackward (recording (stop_after N)) ss (0, []) = Some (N, take N (rev (entries ss)))) \<and>
    (ascending ss \<longrightarrow>
       sorted_wrt (<) (map fst (entries ss)) \<and> sorted_wrt (>) (map fst (rev (entries ss))))"
proof -
  let ?r = "ss\<lparr>data := rev (data ss)\<rparr>"
  have er: "entries ?r = rev (entries ss)" and lr: "Len ?r = Len ss"
    by (simp_all add: entries_def Len_def rev_map)
  have forward: "\<exists>n\<le>Len ss.
       Range (recording f) ss (s, []) = (Range f ss s, take n (entries ss)) \<and>
       (\<forall>m. m + 1 < n \<longrightarrow>
          fst (f (Key (data ss ! m)) (Value (data ss ! m))
                 (Range f (ss\<lparr>data := take m (data ss)\<rparr>) s))) \<and>
       (n < Len ss \<longrightarrow> 0 < n \<and>
          \<not> fst (f (Key (data ss ! (n - 1))) (Value (data ss ! (n - 1)))
                   (Range f (ss\<lparr>data := take (n - 1) (data ss)\<rparr>) s)))"
    by (rule Range_recording)
  have backward: "\<exists>n\<le>Len ss. \<exists>s'.
       RangeBackward f ss s = Some s' \<and>
       RangeBackward (recording f) ss (s, []) = Some (s', take n (rev (entries ss))) \<and>
       (\<forall>m. m + 1 < n \<longrightarrow>
          fst (f (Key (rev (data ss) ! m)) (Value (rev (data ss) ! m))
                 (Range f (ss\<lparr>data := take m (rev (data ss))\<rparr>) s))) \<and>
       (n < Len ss \<longrightarrow> 0 < n \<and>
          \<not> fst (f (Key (rev (data ss) ! (n - 1))) (Value (rev (data ss) ! (n - 1)))
                   (Range f (ss\<lparr>data := take (n - 1) (rev (data ss))\<rparr>) s)))"
  proof -
    from Range_recording[of ?r f s] obtain n where n:
      "n \<le> Len ?r"
      "Range (recording f) ?r (s, []) = (Range f ?r s, take n (entries ?r))"
      "\<forall>m. m + 1 < n \<longrightarrow>
        fst (f (Key (data ?r ! m)) (Value (data ?r ! m)) (Range f (?r\<lparr>data := take m (data ?r)\<rparr>) s))"
      "n < Len ?r \<longrightarrow> 0 < n \<and>
        \<not> fst (f (Key (data ?r ! (n - 1))) (Value (data ?r ! (n - 1)))
                 (Range f (?r\<lparr>data := take (n - 1) (data ?r)\<rparr>) s))"
      by blast
    have "RangeBackward (recording f) ss (s, []) = Some (Range f ?r s, take n (rev (entries ss)))"
      using n(2) er by (simp add: RangeBackward_rev)
    moreover have "RangeBackward f ss s = Some (Range f ?r s)"
      by (rule RangeBackward_rev)
    ultimately show ?thesis
      using n(1,3,4) lr by (intro exI[of _ n]) (simp add: Range_def)
  qed
  have counted: "0 < N \<and> N \<le> Len ss \<longrightarrow>
       Range (recording (stop_after N)) ss (0, []) = (N, take N (entries ss)) \<and>
       RangeBackward (recording (stop_after N)) ss (0, []) = Some (N, take N (rev (entries ss)))"
  proof
    assume N: "0 < N \<and> N \<le> Len ss"
    then have 1: "Range (recording (stop_after N)) ss (0, []) = (N, take N (entries ss))"
      using Range_loop_stop_after[of 0 N "data ss" "[]"]
      by (simp add: Range_def Len_def entries_def)
    from N have "Range (recording (stop_after N)) ?r (0, []) = (N, take N (entries ?r))"
      using Range_loop_stop_after[of 0 N "data ?r" "[]"]
      by (simp add: Range_def Len_def entries_def)
    then have "RangeBackward (recording (stop_after N)) ss (0, []) = Some (N, take N (rev (entries ss)))"
      using er by (simp add: RangeBackward_rev)
    with 1 show "Range (recording (stop_after N)) ss (0, []) = (N, take N (entries ss)) \<and>
       RangeBackward (recording (stop_after N)) ss (0, []) = Some (N, take N (rev (entries ss)))"
      by simp
  qed
  have order: "ascending ss \<longrightarrow>
       sorted_wrt (<) (map fst (entries ss)) \<and> sorted_wrt (>) (map fst (rev (entries ss)))"
    using entries_descending[of ss] by (simp add: ascending_def entries_def comp_def)
  show ?thesis
    using forward backward counted order by blast
qed

theorem ranging_order_and_early_exit_witness:
  "ascending \<lparr>data = [\<lparr>Key = (1::int), Value = ''one''\<rparr>, \<lparr>Key = 2, Value = ''two''\<rparr>,
                      \<lparr>Key = 3, Value = ''three''\<rparr>]\<rparr> \<and>
   (0::nat) < 2 \<and>
   2 \<le> Len \<lparr>data = [\<lparr>Key = (1::int), Value = ''one''\<rparr>, \<lparr>Key = 2, Value = ''two''\<rparr>,
                      \<lparr>Key = 3, Value = ''three''\<rparr>]\<rparr> \<and>
   Range (recording (stop_after 2))
     \<lparr>data = [\<lparr>Key = (1::int), Value = ''one''\<rparr>, \<lparr>Key = 2, Value = ''two''\<rparr>,
              \<lparr>Key = 3, Value = ''three''\<rparr>]\<rparr> (0, [])
     = (2, [(1, ''one''), (2, ''two'')]) \<and>
   RangeBackward (recording (stop_after 2))
     \<lparr>data = [\<lparr>Key = (1::int), Value = ''one''\<rparr>, \<lparr>Key = 2, Value = ''two''\<rparr>,
              \<lparr>Key = 3, Value = ''three''\<rparr>]\<rparr> (0, [])
     = Some (2, [(3, ''three''), (2, ''two'')])"
proof -
  let ?S = "\<lparr>data = [\<lparr>Key = (1::int), Value = ''one''\<rparr>, \<lparr>Key = 2, Value = ''two''\<rparr>,
                      \<lparr>Key = 3, Value = ''three''\<rparr>]\<rparr>"
  have a: "ascending ?S" by (simp add: ascending_def)
  have l: "(0::nat) < 2 \<and> 2 \<le> Len ?S" by (simp add: Len_def)
  have e: "take 2 (entries ?S) = [(1, ''one''), (2, ''two'')]"
    "take 2 (rev (entries ?S)) = [(3, ''three''), (2, ''two'')]"
    by (simp_all add: entries_def)
  from ranging_order_and_early_exit[of ?S "stop_after 2" 0 2] l
  have "Range (recording (stop_after 2)) ?S (0, []) = (2, take 2 (entries ?S))"
    "RangeBackward (recording (stop_after 2)) ?S (0, []) = Some (2, take 2 (rev (entries ?S)))"
    by blast+
  with a l e show ?thesis by simp
qed

subsection \<open>Extremal access\<close>

text \<open>
  C8. None of \<open>First\<close>, \<open>Last\<close>, \<open>Min\<close>, \<open>Max\<close>, \<open>FirstKey\<close>, \<open>LastKey\<close>, \<open>MinKey\<close>,
  \<open>MaxKey\<close> panics. On an empty map the four value functions return the zero value of
  the value type and the four key functions the zero value of the key type. On a
  non-empty map they return the value, or the key, of the entry at the first position
  (\<open>First\<close>, \<open>Min\<close>, \<open>FirstKey\<close>, \<open>MinKey\<close>) and at the last position (the others); on
  ascending entries these two keys are the lowest and the highest key stored.
\<close>

theorem extremal_access:
  fixes ss :: "('k::{linorder, default}, 'v::default) SortedSlice"
  shows
   "(Len ss = 0 \<longrightarrow>
       First ss = Some default \<and> Last ss = Some default \<and>
       Min_go ss = Some default \<and> Max_go ss = Some default \<and>
       FirstKey ss = Some default \<and> LastKey ss = Some default \<and>
       MinKey ss = Some default \<and> MaxKey ss = Some default) \<and>
    (Len ss \<noteq> 0 \<longrightarrow>
       First ss = Some (Value (data ss ! 0)) \<and> Last ss = Some (Value (data ss ! (Len ss - 1))) \<and>
       Min_go ss = Some (Value (data ss ! 0)) \<and> Max_go ss = Some (Value (data ss ! (Len ss - 1))) \<and>
       FirstKey ss = Some (Key (data ss ! 0)) \<and> LastKey ss = Some (Key (data ss ! (Len ss - 1))) \<and>
       MinKey ss = Some (Key (data ss ! 0)) \<and> MaxKey ss = Some (Key (data ss ! (Len ss - 1))) \<and>
       (ascending ss \<longrightarrow>
          (\<forall>k\<in>keys ss. Key (data ss ! 0) \<le> k \<and> k \<le> Key (data ss ! (Len ss - 1)))))"
proof -
  have empty: "Len ss = 0 \<longrightarrow>
       First ss = Some default \<and> Last ss = Some default \<and>
       Min_go ss = Some default \<and> Max_go ss = Some default \<and>
       FirstKey ss = Some default \<and> LastKey ss = Some default \<and>
       MinKey ss = Some default \<and> MaxKey ss = Some default"
    by (simp add: Len_def First_def Last_def Min_go_def Max_go_def FirstKey_def LastKey_def
        MinKey_def MaxKey_def)
  have vals: "Len ss \<noteq> 0 \<longrightarrow>
       First ss = Some (Value (data ss ! 0)) \<and> Last ss = Some (Value (data ss ! (Len ss - 1))) \<and>
       Min_go ss = Some (Value (data ss ! 0)) \<and> Max_go ss = Some (Value (data ss ! (Len ss - 1)))"
    by (simp add: Len_def First_def Last_def Min_go_def Max_go_def index_at_def)
  have kys: "Len ss \<noteq> 0 \<longrightarrow>
       FirstKey ss = Some (Key (data ss ! 0)) \<and> LastKey ss = Some (Key (data ss ! (Len ss - 1))) \<and>
       MinKey ss = Some (Key (data ss ! 0)) \<and> MaxKey ss = Some (Key (data ss ! (Len ss - 1)))"
    by (simp add: Len_def FirstKey_def LastKey_def MinKey_def MaxKey_def index_at_def)
  have bounds: "\<forall>k\<in>keys ss. Key (data ss ! 0) \<le> k \<and> k \<le> Key (data ss ! (Len ss - 1))"
    if a: "ascending ss"
  proof
    fix k assume "k \<in> keys ss"
    then obtain h where h: "h < length (data ss)" "k = Key (data ss ! h)"
      by (auto simp: keys_def in_set_conv_nth)
    have s: "\<forall>i j. i < j \<longrightarrow> j < length (data ss) \<longrightarrow> Key (data ss ! i) < Key (data ss ! j)"
      using a by (simp add: ascending_def sorted_wrt_iff_nth_less)
    have "Key (data ss ! 0) \<le> Key (data ss ! h)"
    proof (cases "h = 0")
      case False
      with s h(1) have "Key (data ss ! 0) < Key (data ss ! h)" by simp
      then show ?thesis by simp
    qed simp
    moreover have "Key (data ss ! h) \<le> Key (data ss ! (length (data ss) - 1))"
    proof (cases "h = length (data ss) - 1")
      case False
      with h(1) have "h < length (data ss) - 1" "length (data ss) - 1 < length (data ss)" by simp_all
      with s have "Key (data ss ! h) < Key (data ss ! (length (data ss) - 1))" by blast
      then show ?thesis by simp
    qed simp
    ultimately show "Key (data ss ! 0) \<le> k \<and> k \<le> Key (data ss ! (Len ss - 1))"
      using h(2) by (simp add: Len_def)
  qed
  show ?thesis using empty vals kys bounds by blast
qed

theorem extremal_access_witness:
  "Len (New :: (int, string) SortedSlice) = 0 \<and>
   First (New :: (int, string) SortedSlice) = Some '''' \<and>
   Last (New :: (int, string) SortedSlice) = Some '''' \<and>
   FirstKey (New :: (int, string) SortedSlice) = Some 0 \<and>
   LastKey (New :: (int, string) SortedSlice) = Some 0 \<and>
   Len \<lparr>data = [\<lparr>Key = (1::int), Value = ''one''\<rparr>, \<lparr>Key = 2, Value = ''two''\<rparr>,
                      \<lparr>Key = 3, Value = ''three''\<rparr>]\<rparr> \<noteq> 0 \<and>
   First \<lparr>data = [\<lparr>Key = (1::int), Value = ''one''\<rparr>, \<lparr>Key = 2, Value = ''two''\<rparr>,
                      \<lparr>Key = 3, Value = ''three''\<rparr>]\<rparr> = Some ''one'' \<and>
   Max_go \<lparr>data = [\<lparr>Key = (1::int), Value = ''one''\<rparr>, \<lparr>Key = 2, Value = ''two''\<rparr>,
                      \<lparr>Key = 3, Value = ''three''\<rparr>]\<rparr> = Some ''three'' \<and>
   MinKey \<lparr>data = [\<lparr>Key = (1::int), Value = ''one''\<rparr>, \<lparr>Key = 2, Value = ''two''\<rparr>,
                      \<lparr>Key = 3, Value = ''three''\<rparr>]\<rparr> = Some 1 \<and>
   LastKey \<lparr>data = [\<lparr>Key = (1::int), Value = ''one''\<rparr>, \<lparr>Key = 2, Value = ''two''\<rparr>,
                      \<lparr>Key = 3, Value = ''three''\<rparr>]\<rparr> = Some 3 \<and>
   ascending \<lparr>data = [\<lparr>Key = (1::int), Value = ''one''\<rparr>, \<lparr>Key = 2, Value = ''two''\<rparr>,
                      \<lparr>Key = 3, Value = ''three''\<rparr>]\<rparr> \<and>
   2 \<in> keys \<lparr>data = [\<lparr>Key = (1::int), Value = ''one''\<rparr>, \<lparr>Key = 2, Value = ''two''\<rparr>,
                      \<lparr>Key = 3, Value = ''three''\<rparr>]\<rparr> \<and>
   Key ([\<lparr>Key = (1::int), Value = ''one''\<rparr>, \<lparr>Key = 2, Value = ''two''\<rparr>,
         \<lparr>Key = 3, Value = ''three''\<rparr>] ! 0) \<le> 2 \<and>
   2 \<le> Key ([\<lparr>Key = (1::int), Value = ''one''\<rparr>, \<lparr>Key = 2, Value = ''two''\<rparr>,
              \<lparr>Key = 3, Value = ''three''\<rparr>] ! 2)"
proof -
  let ?S = "\<lparr>data = [\<lparr>Key = (1::int), Value = ''one''\<rparr>, \<lparr>Key = 2, Value = ''two''\<rparr>,
                      \<lparr>Key = 3, Value = ''three''\<rparr>]\<rparr>"
  have n: "Len (New :: (int, string) SortedSlice) = 0" by (simp add: Len_def New_def)
  have s: "Len ?S \<noteq> 0" by (simp add: Len_def)
  from extremal_access[of "New :: (int, string) SortedSlice"] n
  have "First (New :: (int, string) SortedSlice) = Some default"
    "Last (New :: (int, string) SortedSlice) = Some default"
    "FirstKey (New :: (int, string) SortedSlice) = Some default"
    "LastKey (New :: (int, string) SortedSlice) = Some default"
    by blast+
  then have e: "First (New :: (int, string) SortedSlice) = Some ''''"
    "Last (New :: (int, string) SortedSlice) = Some ''''"
    "FirstKey (New :: (int, string) SortedSlice) = Some 0"
    "LastKey (New :: (int, string) SortedSlice) = Some 0"
    by (simp_all add: default_list_def default_int_def)
  from extremal_access[of ?S] s
  have "First ?S = Some (Value (data ?S ! 0))" "Max_go ?S = Some (Value (data ?S ! (Len ?S - 1)))"
    "MinKey ?S = Some (Key (data ?S ! 0))" "LastKey ?S = Some (Key (data ?S ! (Len ?S - 1)))"
    by blast+
  then have "First ?S = Some ''one''" "Max_go ?S = Some ''three''" "MinKey ?S = Some 1"
    "LastKey ?S = Some 3"
    by (simp_all add: Len_def)
  moreover have a: "ascending ?S" by (simp add: ascending_def)
  moreover have k: "2 \<in> keys ?S" by (simp add: keys_def)
  moreover from extremal_access[of ?S] s a k
  have "Key (data ?S ! 0) \<le> 2 \<and> 2 \<le> Key (data ?S ! (Len ?S - 1))"
    by blast
  then have "Key (data ?S ! 0) \<le> 2" "2 \<le> Key (data ?S ! 2)"
    by (simp_all add: Len_def)
  ultimately show ?thesis using n s e by simp
qed

subsection \<open>Frame of the keyed mutations\<close>

text \<open>
  C10. \<open>Add key value\<close> and \<open>Delete key\<close> keep the entries of every other key, with
  their values and in their order: dropping the entries of \<open>key\<close> from the sequence
  gives the same list before and after. On a map whose entries are ascending, a lookup
  or a membership test of any other key gives the same answer before and after.
\<close>

theorem keyed_mutation_frame:
  fixes key :: "'k::{linorder, default}" and "value" :: "'v::default"
  shows "\<exists>ss1 r ss2.
           Add key value ss = Some ss1 \<and> Delete key ss = Some (r, ss2) \<and>
           filter (\<lambda>e. Key e \<noteq> key) (data ss1) = filter (\<lambda>e. Key e \<noteq> key) (data ss) \<and>
           filter (\<lambda>e. Key e \<noteq> key) (data ss2) = filter (\<lambda>e. Key e \<noteq> key) (data ss) \<and>
           (ascending ss \<longrightarrow>
              (\<forall>k'. k' \<noteq> key \<longrightarrow>
                 Get k' ss1 = Get k' ss \<and> Exist k' ss1 = Exist k' ss \<and>
                 Get k' ss2 = Get k' ss \<and> Exist k' ss2 = Exist k' ss))"
proof -
  from Add_others[of key "value" ss] obtain ss1 where ss1:
    "Add key value ss = Some ss1"
    "filter (\<lambda>e. Key e \<noteq> key) (data ss1) = filter (\<lambda>e. Key e \<noteq> key) (data ss)"
    by blast
  from Delete_others[of key ss] obtain r ss2 where ss2:
    "Delete key ss = Some (r, ss2)"
    "filter (\<lambda>e. Key e \<noteq> key) (data ss2) = filter (\<lambda>e. Key e \<noteq> key) (data ss)"
    by blast
  have "\<forall>k'. k' \<noteq> key \<longrightarrow>
                 Get k' ss1 = Get k' ss \<and> Exist k' ss1 = Exist k' ss \<and>
                 Get k' ss2 = Get k' ss \<and> Exist k' ss2 = Exist k' ss"
    if a: "ascending ss"
  proof (intro allI impI)
    fix k' assume ne: "k' \<noteq> key"
    from Add_ascending[OF a, of key "value"] ss1(1) have a1: "ascending ss1" by simp
    from Delete_ascending[OF a, of key] ss2(1) have a2: "ascending ss2" by simp
    have "Get k' ss1 = Get k' ss"
      using Get_ascending[OF a1, of k'] Get_ascending[OF a, of k']
        map_of_others[OF ss1(2) a a1 ne] by simp
    moreover have "Get k' ss2 = Get k' ss"
      using Get_ascending[OF a2, of k'] Get_ascending[OF a, of k']
        map_of_others[OF ss2(2) a a2 ne] by simp
    moreover have "Exist k' ss1 = Exist k' ss"
      using Exist_ascending[OF a1, of k'] Exist_ascending[OF a, of k']
        keys_others[OF ss1(2) ne] by simp
    moreover have "Exist k' ss2 = Exist k' ss"
      using Exist_ascending[OF a2, of k'] Exist_ascending[OF a, of k']
        keys_others[OF ss2(2) ne] by simp
    ultimately show "Get k' ss1 = Get k' ss \<and> Exist k' ss1 = Exist k' ss \<and>
                 Get k' ss2 = Get k' ss \<and> Exist k' ss2 = Exist k' ss" by simp
  qed
  with ss1 ss2 show ?thesis by blast
qed

theorem keyed_mutation_frame_witness:
  "ascending \<lparr>data = [\<lparr>Key = (1::int), Value = ''one''\<rparr>, \<lparr>Key = 2, Value = ''two''\<rparr>,
                      \<lparr>Key = 3, Value = ''three''\<rparr>]\<rparr> \<and> (3::int) \<noteq> 2 \<and>
   Add 2 ''II'' \<lparr>data = [\<lparr>Key = (1::int), Value = ''one''\<rparr>, \<lparr>Key = 2, Value = ''two''\<rparr>,
                      \<lparr>Key = 3, Value = ''three''\<rparr>]\<rparr>
     = Some \<lparr>data = [\<lparr>Key = (1::int), Value = ''one''\<rparr>, \<lparr>Key = 2, Value = ''II''\<rparr>,
                      \<lparr>Key = 3, Value = ''three''\<rparr>]\<rparr> \<and>
   Delete 2 \<lparr>data = [\<lparr>Key = (1::int), Value = ''one''\<rparr>, \<lparr>Key = 2, Value = ''two''\<rparr>,
                      \<lparr>Key = 3, Value = ''three''\<rparr>]\<rparr>
     = Some ((''two'', True), \<lparr>data = [\<lparr>Key = 1, Value = ''one''\<rparr>, \<lparr>Key = 3, Value = ''three''\<rparr>]\<rparr>) \<and>
   Get 3 \<lparr>data = [\<lparr>Key = (1::int), Value = ''one''\<rparr>, \<lparr>Key = 2, Value = ''II''\<rparr>,
                      \<lparr>Key = 3, Value = ''three''\<rparr>]\<rparr>
     = Get 3 \<lparr>data = [\<lparr>Key = (1::int), Value = ''one''\<rparr>, \<lparr>Key = 2, Value = ''two''\<rparr>,
                      \<lparr>Key = 3, Value = ''three''\<rparr>]\<rparr> \<and>
   Get 3 \<lparr>data = [\<lparr>Key = (1::int), Value = ''one''\<rparr>, \<lparr>Key = 3, Value = ''three''\<rparr>]\<rparr>
     = Get 3 \<lparr>data = [\<lparr>Key = (1::int), Value = ''one''\<rparr>, \<lparr>Key = 2, Value = ''two''\<rparr>,
                      \<lparr>Key = 3, Value = ''three''\<rparr>]\<rparr>"
proof -
  let ?S = "\<lparr>data = [\<lparr>Key = (1::int), Value = ''one''\<rparr>, \<lparr>Key = 2, Value = ''two''\<rparr>,
                      \<lparr>Key = 3, Value = ''three''\<rparr>]\<rparr>"
  have a: "ascending ?S" by (simp add: ascending_def)
  have e1: "Add 2 ''II'' ?S = Some \<lparr>data = [\<lparr>Key = (1::int), Value = ''one''\<rparr>, \<lparr>Key = 2, Value = ''II''\<rparr>,
                      \<lparr>Key = 3, Value = ''three''\<rparr>]\<rparr>"
    by code_simp
  have e2: "Delete 2 ?S = Some ((''two'', True),
              \<lparr>data = [\<lparr>Key = 1, Value = ''one''\<rparr>, \<lparr>Key = 3, Value = ''three''\<rparr>]\<rparr>)"
    by code_simp
  from keyed_mutation_frame[of 2 "''II''" ?S] a obtain ss1 r ss2 where f:
    "Add 2 ''II'' ?S = Some ss1" "Delete 2 ?S = Some (r, ss2)"
    "\<forall>k'. k' \<noteq> 2 \<longrightarrow> Get k' ss1 = Get k' ?S \<and> Get k' ss2 = Get k' ?S"
    by blast
  from f(3) have "Get 3 ss1 = Get 3 ?S" "Get 3 ss2 = Get 3 ?S" by simp_all
  with f(1,2) e1 e2 a show ?thesis by simp
qed

end
